theory Spec2Isabelle
  imports Main "HOL-Library.Word"
begin

section \<open>The K&R free-list allocator of user/umalloc.c\<close>

subsection \<open>Data model\<close>

text \<open>
  \<^verbatim>\<open>uint\<close> is a 32-bit unsigned integer. A \<^verbatim>\<open>Header *\<close> is modelled by the byte address
  it holds; address 0 is the null pointer. Addresses are natural numbers, so pointer
  arithmetic itself never wraps; the arithmetic on \<^verbatim>\<open>uint\<close> and \<^verbatim>\<open>size_t\<close> values does.
\<close>

type_synonym uint = "32 word"
type_synonym addr = nat

text \<open>
  What the sources do not fix (kernel/types.h and user/user.h are not part of them) is
  taken as a parameter: \<open>sizeof_Header\<close> is \<^verbatim>\<open>sizeof(Header)\<close>, \<open>size_t_bits\<close> is the width
  of the type of a \<^verbatim>\<open>sizeof\<close> expression, in which \<^verbatim>\<open>nbytes + sizeof(Header) - 1\<close> and
  \<^verbatim>\<open>nu * sizeof(Header)\<close> are computed, and \<open>base\<close> is the address of the static
  sentinel \<^verbatim>\<open>base\<close>.
\<close>

record layout =
  sizeof_Header :: nat
  size_t_bits :: nat
  base :: addr

text \<open>
  The store: the two fields \<^verbatim>\<open>s.ptr\<close> and \<^verbatim>\<open>s.size\<close> of the header at each address, the
  cursor \<^verbatim>\<open>freep\<close>, and the state of the growth primitive (the current end \<open>brk\<close> of the
  managed region and the bound \<open>lim\<close> beyond which it cannot grow).
\<close>

record heap =
  s_ptr :: "addr \<Rightarrow> addr"
  s_size :: "addr \<Rightarrow> uint"
  freep :: addr
  brk :: addr
  lim :: addr

subsection \<open>Arithmetic of \<^verbatim>\<open>size_t\<close>\<close>

definition size_t_of :: "layout \<Rightarrow> nat \<Rightarrow> nat" where
  "size_t_of L n = n mod 2 ^ size_t_bits L"

text \<open>
  Decrement in \<^verbatim>\<open>size_t\<close>: 0 wraps to the largest value.
\<close>

definition size_t_dec :: "layout \<Rightarrow> nat \<Rightarrow> nat" where
  "size_t_dec L a = (if a = 0 then 2 ^ size_t_bits L - 1 else a - 1)"

text \<open>
  Line 92: \<^verbatim>\<open>nunits = (nbytes + sizeof(Header) - 1) / sizeof(Header) + 1\<close>, evaluated left
  to right in \<^verbatim>\<open>size_t\<close> (which is at least as wide as \<^verbatim>\<open>uint\<close>) and stored into a
  \<^verbatim>\<open>uint\<close>: the sum \<^verbatim>\<open>nbytes + sizeof(Header)\<close>, reduced to the width; the decrement of
  that; the quotient, plus one, reduced again; the conversion to 32 bits.
\<close>

definition units_sum :: "layout \<Rightarrow> uint \<Rightarrow> nat" where
  "units_sum L nbytes = size_t_of L (unat nbytes + sizeof_Header L)"

definition units_dec :: "layout \<Rightarrow> uint \<Rightarrow> nat" where
  "units_dec L nbytes = size_t_dec L (units_sum L nbytes)"

definition nunits_of :: "layout \<Rightarrow> uint \<Rightarrow> uint" where
  "nunits_of L nbytes =
     word_of_nat (size_t_of L (units_dec L nbytes div sizeof_Header L + 1))"

text \<open>The spec's words: units needed = ceil(byte_count / unit_size) + 1.\<close>

definition ceil_div :: "nat \<Rightarrow> nat \<Rightarrow> nat" where
  "ceil_div n d = (if n mod d = 0 then n div d else n div d + 1)"

definition spec_units :: "nat \<Rightarrow> nat \<Rightarrow> nat" where
  "spec_units H nbytes = ceil_div nbytes H + 1"

subsection \<open>The growth primitive\<close>

text \<open>
  Modelled from the spec: \<^verbatim>\<open>sbrk\<close> is a system call, declared in user/user.h and
  implemented in the kernel, neither of which is in the sources. The spec (section 6)
  has it extend the managed region by the byte count, contiguous with and immediately
  following the region's current end, and return the start of the new span or fail.
  \<open>None\<close> is the failure value \<^verbatim>\<open>(char*)-1\<close>.
\<close>

definition sbrk :: "nat \<Rightarrow> heap \<Rightarrow> (addr \<times> heap) option" where
  "sbrk n s = (if brk s + n \<le> lim s then Some (brk s, s\<lparr>brk := brk s + n\<rparr>) else None)"

subsection \<open>free\<close>

text \<open>
  The stop condition of the scan of lines 41 to 44: the loop ends at \<open>p\<close> when the loop
  condition fails (\<open>bp\<close> lies strictly between \<open>p\<close> and its successor) or the \<^verbatim>\<open>break\<close>
  is taken (\<open>p\<close> is at the wrap and \<open>bp\<close> lies beyond either end).
\<close>

definition scan_stop :: "heap \<Rightarrow> addr \<Rightarrow> addr \<Rightarrow> bool" where
  "scan_stop s bp p \<longleftrightarrow>
     (bp > p \<and> bp < s_ptr s p) \<or> (p \<ge> s_ptr s p \<and> (bp > p \<or> bp < s_ptr s p))"

partial_function (option) free_scan :: "heap \<Rightarrow> addr \<Rightarrow> addr \<Rightarrow> addr option" where
  "free_scan s bp p =
     (if bp > p \<and> bp < s_ptr s p then Some p
      else if p \<ge> s_ptr s p \<and> (bp > p \<or> bp < s_ptr s p) then Some p
      else free_scan s bp (s_ptr s p))"

text \<open>Lines 46 to 62: the two merges and the update of the cursor, at the place found.\<close>

definition free_link :: "layout \<Rightarrow> addr \<Rightarrow> addr \<Rightarrow> heap \<Rightarrow> heap" where
  "free_link L bp p s =
     (let H = sizeof_Header L;
          s1 = (if bp + unat (s_size s bp) * H = s_ptr s p
                then s\<lparr>s_size := (s_size s)(bp := s_size s bp + s_size s (s_ptr s p)),
                        s_ptr := (s_ptr s)(bp := s_ptr s (s_ptr s p))\<rparr>
                else s\<lparr>s_ptr := (s_ptr s)(bp := s_ptr s p)\<rparr>);
          s2 = (if p + unat (s_size s1 p) * H = bp
                then s1\<lparr>s_size := (s_size s1)(p := s_size s1 p + s_size s1 bp),
                         s_ptr := (s_ptr s1)(p := s_ptr s1 bp)\<rparr>
                else s1\<lparr>s_ptr := (s_ptr s1)(p := bp)\<rparr>)
      in s2\<lparr>freep := p\<rparr>)"

definition free :: "layout \<Rightarrow> addr \<Rightarrow> heap \<Rightarrow> heap option" where
  "free L ap s =
     (let bp = ap - sizeof_Header L in
      case free_scan s bp (freep s) of
        None \<Rightarrow> None
      | Some p \<Rightarrow> Some (free_link L bp p s))"

subsection \<open>morecore\<close>

definition morecore :: "layout \<Rightarrow> uint \<Rightarrow> heap \<Rightarrow> (addr \<times> heap) option" where
  "morecore L nu0 s =
     (let nu = (if nu0 < 4096 then 4096 else nu0) in
      case sbrk (size_t_of L (unat nu * sizeof_Header L)) s of
        None \<Rightarrow> Some (0, s)
      | Some (hp, s1) \<Rightarrow>
          (let s2 = s1\<lparr>s_size := (s_size s1)(hp := nu)\<rparr> in
           case free L (hp + sizeof_Header L) s2 of
             None \<Rightarrow> None
           | Some s3 \<Rightarrow> Some (freep s3, s3)))"

subsection \<open>malloc\<close>

text \<open>Lines 101 to 110: the block at \<open>p\<close> is large enough.\<close>

definition take_block :: "layout \<Rightarrow> uint \<Rightarrow> addr \<Rightarrow> addr \<Rightarrow> heap \<Rightarrow> addr \<times> heap" where
  "take_block L nunits prevp p s =
     (if s_size s p = nunits
      then (p + sizeof_Header L, s\<lparr>s_ptr := (s_ptr s)(prevp := s_ptr s p), freep := prevp\<rparr>)
      else
        (let s1 = s\<lparr>s_size := (s_size s)(p := s_size s p - nunits)\<rparr>;
             p' = p + unat (s_size s1 p) * sizeof_Header L;
             s2 = s1\<lparr>s_size := (s_size s1)(p' := nunits)\<rparr>
         in (p' + sizeof_Header L, s2\<lparr>freep := prevp\<rparr>)))"

text \<open>
  The loop of lines 100 to 116, entered with \<open>p = prevp->s.ptr\<close>. The result is the
  returned pointer (0 for out of memory) and the store; \<open>None\<close> is a loop that never
  returns.
\<close>

partial_function (option) malloc_loop ::
  "layout \<Rightarrow> uint \<Rightarrow> addr \<Rightarrow> addr \<Rightarrow> heap \<Rightarrow> (addr \<times> heap) option" where
  "malloc_loop L nunits prevp p s =
     (if s_size s p \<ge> nunits then Some (take_block L nunits prevp p s)
      else if p = freep s then
        (case morecore L nunits s of
           None \<Rightarrow> None
         | Some (p1, s1) \<Rightarrow>
             if p1 = 0 then Some (0, s1)
             else malloc_loop L nunits p1 (s_ptr s1 p1) s1)
      else malloc_loop L nunits p (s_ptr s p) s)"

text \<open>Lines 94 to 97: the first call makes the list the sentinel alone.\<close>

definition init_list :: "layout \<Rightarrow> heap \<Rightarrow> heap" where
  "init_list L s =
     (if freep s = 0
      then s\<lparr>s_ptr := (s_ptr s)(base L := base L), freep := base L,
              s_size := (s_size s)(base L := 0)\<rparr>
      else s)"

definition malloc :: "layout \<Rightarrow> uint \<Rightarrow> heap \<Rightarrow> (addr \<times> heap) option" where
  "malloc L nbytes s =
     (let nunits = nunits_of L nbytes;
          s0 = init_list L s;
          prevp = freep s0
      in malloc_loop L nunits prevp (s_ptr s0 prevp) s0)"

subsection \<open>The scan of free, with the nodes it visits\<close>

text \<open>
  The same loop as \<open>free_scan\<close>, returning every node it has visited, in order, the
  node it stops at last.
\<close>

partial_function (option) free_scan_trace :: "heap \<Rightarrow> addr \<Rightarrow> addr \<Rightarrow> addr list option" where
  "free_scan_trace s bp p =
     (if bp > p \<and> bp < s_ptr s p then Some [p]
      else if p \<ge> s_ptr s p \<and> (bp > p \<or> bp < s_ptr s p) then Some [p]
      else Option.bind (free_scan_trace s bp (s_ptr s p)) (\<lambda>vs. Some (p # vs)))"

subsection \<open>Free lists\<close>

text \<open>
  \<open>chain f p xs q\<close>: following the link \<open>f\<close> from \<open>p\<close> visits exactly the nodes \<open>xs\<close> and
  arrives at \<open>q\<close>. A list of nodes is cyclic when it is not empty, has no node twice,
  and the chain from its first node through all of them is back at the first node
  (invariant 1 of the spec).
\<close>

primrec chain :: "(addr \<Rightarrow> addr) \<Rightarrow> addr \<Rightarrow> addr list \<Rightarrow> addr \<Rightarrow> bool" where
  "chain f p [] q \<longleftrightarrow> p = q"
| "chain f p (x # xs) q \<longleftrightarrow> p = x \<and> chain f (f x) xs q"

definition cyclic :: "heap \<Rightarrow> addr list \<Rightarrow> bool" where
  "cyclic s ns \<longleftrightarrow> ns \<noteq> [] \<and> distinct ns \<and> chain (s_ptr s) (hd ns) ns (hd ns)"

subsection \<open>Well-formed heaps\<close>

text \<open>
  A block with its header at \<open>x\<close> occupies the bytes from \<open>x\<close> up to, not including,
  \<open>blk_end L s x\<close>: its size counts header-sized units and includes the header.
\<close>

definition blk_end :: "layout \<Rightarrow> heap \<Rightarrow> addr \<Rightarrow> addr" where
  "blk_end L s x = x + unat (s_size s x) * sizeof_Header L"

definition blk :: "layout \<Rightarrow> heap \<Rightarrow> addr \<Rightarrow> addr set" where
  "blk L s x = {x ..< blk_end L s x}"

definition region :: "layout \<Rightarrow> heap \<Rightarrow> addr list \<Rightarrow> addr set" where
  "region L s ns = (\<Union>x\<in>set ns. blk L s x)"

text \<open>
  \<open>sep L s lo ns\<close>: the nodes \<open>ns\<close> are in ascending address order above \<open>lo\<close>, and each
  node starts strictly above the end of the one before it (invariants 2 and 3 of the
  spec: address order, and no two blocks adjacent or overlapping).
\<close>

primrec sep :: "layout \<Rightarrow> heap \<Rightarrow> addr \<Rightarrow> addr list \<Rightarrow> bool" where
  "sep L s lo [] \<longleftrightarrow> True"
| "sep L s lo (x # xs) \<longleftrightarrow> lo < x \<and> sep L s (blk_end L s x) xs"

definition no_adjacent :: "layout \<Rightarrow> heap \<Rightarrow> addr list \<Rightarrow> bool" where
  "no_adjacent L s ns \<longleftrightarrow> (\<forall>a\<in>set ns. \<forall>b\<in>set ns. a \<noteq> b \<longrightarrow> blk_end L s a \<noteq> b)"

text \<open>
  What is assumed of the platform: a header of at least two bytes, a sentinel that is
  not at the null address, a \<^verbatim>\<open>size_t\<close> at least as wide as \<^verbatim>\<open>uint\<close> and wide enough for
  the byte count of the minimal growth of 4096 units.
\<close>

definition layout_ok :: "layout \<Rightarrow> bool" where
  "layout_ok L \<longleftrightarrow>
     2 \<le> sizeof_Header L \<and> 0 < base L \<and> 32 \<le> size_t_bits L \<and>
     4096 * sizeof_Header L < 2 ^ size_t_bits L"

text \<open>
  What is assumed of the managed region: it lies above the sentinel, its end is a
  multiple of the header size and within the bound of the growth primitive, and the
  bound is small enough for every block size in it to fit a \<^verbatim>\<open>uint\<close>.
\<close>

definition arena_ok :: "layout \<Rightarrow> heap \<Rightarrow> bool" where
  "arena_ok L s \<longleftrightarrow>
     base L + sizeof_Header L \<le> brk s \<and> sizeof_Header L dvd brk s \<and> brk s \<le> lim s \<and>
     lim s \<le> 2 ^ 32 * sizeof_Header L"

text \<open>
  A block of the managed region: above the sentinel, aligned to the header size, of at
  least one unit, ending within the region.
\<close>

definition blk_ok :: "layout \<Rightarrow> heap \<Rightarrow> addr \<Rightarrow> bool" where
  "blk_ok L s x \<longleftrightarrow>
     base L + sizeof_Header L \<le> x \<and> sizeof_Header L dvd x \<and> s_size s x \<noteq> 0 \<and>
     blk_end L s x \<le> brk s"

text \<open>
  The invariant of an initialised allocator. The free list is the sentinel followed by
  the blocks \<open>xs\<close>: a cycle through the sentinel, which has size 0, in ascending address
  order with a gap between any two blocks, every block a block of the managed region,
  and the cursor on one of the nodes.
\<close>

definition heap_inv :: "layout \<Rightarrow> heap \<Rightarrow> addr list \<Rightarrow> bool" where
  "heap_inv L s xs \<longleftrightarrow>
     layout_ok L \<and> arena_ok L s \<and> cyclic s (base L # xs) \<and> s_size s (base L) = 0 \<and>
     sep L s 0 (base L # xs) \<and> (\<forall>x\<in>set xs. blk_ok L s x) \<and> freep s \<in> set (base L # xs)"

text \<open>The same invariant, on the list of all nodes, the sentinel first.\<close>

definition wfl :: "layout \<Rightarrow> heap \<Rightarrow> addr list \<Rightarrow> bool" where
  "wfl L s ns \<longleftrightarrow>
     layout_ok L \<and> arena_ok L s \<and> cyclic s ns \<and> hd ns = base L \<and> s_size s (base L) = 0 \<and>
     sep L s 0 ns \<and> (\<forall>x\<in>set ns. x \<noteq> base L \<longrightarrow> blk_ok L s x) \<and> freep s \<in> set ns"

text \<open>
  The precondition of free, on the header address \<open>bp\<close> of the block: a block of the
  managed region that overlaps no free block (it may touch one).
\<close>

definition chunk :: "layout \<Rightarrow> heap \<Rightarrow> addr list \<Rightarrow> addr \<Rightarrow> bool" where
  "chunk L s xs bp \<longleftrightarrow>
     blk_ok L s bp \<and> (\<forall>x\<in>set xs. blk_end L s bp \<le> x \<or> blk_end L s x \<le> bp)"

text \<open>
  The situation of free after its scan: the nodes up to \<open>p\<close> end at or below \<open>bp\<close>, the
  nodes \<open>bs\<close> after \<open>p\<close> start at or above the end of the block at \<open>bp\<close>.
\<close>

definition free_at :: "layout \<Rightarrow> heap \<Rightarrow> addr list \<Rightarrow> addr \<Rightarrow> addr list \<Rightarrow> addr \<Rightarrow> bool" where
  "free_at L s pre p bs bp \<longleftrightarrow>
     wfl L s (pre @ p # bs) \<and> blk_ok L s bp \<and> blk_end L s p \<le> bp \<and>
     (\<forall>b\<in>set bs. blk_end L s bp \<le> b)"

text \<open>The header address of the block that \<open>take_block\<close> hands out.\<close>

definition taken :: "layout \<Rightarrow> uint \<Rightarrow> addr \<Rightarrow> heap \<Rightarrow> addr" where
  "taken L n r s = (if s_size s r = n then r else r + unat (s_size s r - n) * sizeof_Header L)"

text \<open>
  The units and the byte count that morecore requests (lines 71 to 74), and the
  condition that the multiplication \<^verbatim>\<open>nu * sizeof(Header)\<close> does not wrap.
\<close>

definition grow_units :: "uint \<Rightarrow> uint" where
  "grow_units nu = (if nu < 4096 then 4096 else nu)"

definition grow_bytes :: "layout \<Rightarrow> uint \<Rightarrow> nat" where
  "grow_bytes L nu = size_t_of L (unat (grow_units nu) * sizeof_Header L)"

definition growth_fits :: "layout \<Rightarrow> uint \<Rightarrow> bool" where
  "growth_fits L nu \<longleftrightarrow> unat (grow_units nu) * sizeof_Header L < 2 ^ size_t_bits L"

text \<open>
  The memory the allocator can still hand out: the free blocks and everything from the
  end of the managed region upwards.
\<close>

definition avail :: "layout \<Rightarrow> heap \<Rightarrow> addr list \<Rightarrow> addr set" where
  "avail L s xs = region L s (base L # xs) \<union> {brk s ..}"

text \<open>
  What a successful allocation of \<open>n\<close> units establishes: the invariant again, a
  returned pointer just past the header of a block of the managed region of exactly
  \<open>n\<close> units, taken out of the memory that was available and no longer part of it,
  with no free block starting where it ends.
\<close>

definition alloc_post ::
  "layout \<Rightarrow> uint \<Rightarrow> heap \<Rightarrow> addr list \<Rightarrow> addr \<Rightarrow> heap \<Rightarrow> addr list \<Rightarrow> bool" where
  "alloc_post L n s xs r s' xs' \<longleftrightarrow>
     heap_inv L s' xs' \<and> sizeof_Header L \<le> r \<and> blk_ok L s' (r - sizeof_Header L) \<and>
     s_size s' (r - sizeof_Header L) = n \<and>
     avail L s xs = avail L s' xs' \<union> blk L s' (r - sizeof_Header L) \<and>
     blk L s' (r - sizeof_Header L) \<inter> avail L s' xs' = {} \<and>
     blk_end L s' (r - sizeof_Header L) \<notin> set xs' \<and>
     lim s' = lim s \<and> brk s \<le> brk s'"

text \<open>
  A request whose byte count is far enough below the range of \<^verbatim>\<open>size_t\<close> that neither
  \<^verbatim>\<open>nbytes + sizeof(Header) - 1\<close> nor the byte count of the growth it may need wraps.
  Where \<^verbatim>\<open>size_t\<close> has 64 bits every request is such a request.
\<close>

definition request_ok :: "layout \<Rightarrow> uint \<Rightarrow> bool" where
  "request_ok L nbytes \<longleftrightarrow> unat nbytes + 2 * sizeof_Header L \<le> 2 ^ size_t_bits L"

text \<open>
  What a successful call of malloc for \<open>n\<close> units has done, in terms of the store \<open>t\<close> that
  its search ran on, whose free list is the sentinel followed by \<open>ts\<close>. The search started
  at the successor of the cursor and visited the nodes \<open>us\<close>, none of them large enough,
  before the block \<open>r\<close>, which is; \<open>prev\<close> is the node visited just before \<open>r\<close> (the cursor
  itself when \<open>r\<close> was the first node visited), it is the predecessor of \<open>r\<close> on the list
  and its link holds \<open>r\<close>. On return the cursor is \<open>prev\<close> and the growth primitive has not
  been called again. If the size of \<open>r\<close> is \<open>n\<close>, the pointer returned is just past the
  header of \<open>r\<close>, the only link written is that of \<open>prev\<close>, which now holds the successor
  of \<open>r\<close>, no size is written, and the free list is the old one without \<open>r\<close>. If the size
  of \<open>r\<close> is larger, no link is written, \<open>r\<close> stays on the list with its size reduced by
  \<open>n\<close>, and the block returned has its header at \<open>r'\<close>, above \<open>r\<close>, has size \<open>n\<close> and ends
  where \<open>r\<close> ended before; the free list has the same nodes as before.
\<close>

definition served ::
  "layout \<Rightarrow> uint \<Rightarrow> heap \<Rightarrow> addr list \<Rightarrow> addr list \<Rightarrow> addr \<Rightarrow> addr \<Rightarrow> addr list \<Rightarrow> addr list \<Rightarrow>
   addr \<Rightarrow> heap \<Rightarrow> bool" where
  "served L n t ts us prev r pre bs ptr s' \<longleftrightarrow>
     chain (s_ptr t) (s_ptr t (freep t)) us r \<and> distinct (us @ [r]) \<and>
     (\<forall>u\<in>set us. \<not> n \<le> s_size t u) \<and> n \<le> s_size t r \<and>
     base L # ts = pre @ prev # r # bs \<and> s_ptr t prev = r \<and> prev = last (freep t # us) \<and>
     freep s' = prev \<and> brk s' = brk t \<and> lim s' = lim t \<and>
     (s_size t r = n \<longrightarrow>
        ptr = r + sizeof_Header L \<and> s_ptr s' = (s_ptr t)(prev := s_ptr t r) \<and>
        s_size s' = s_size t \<and> s_ptr s' prev = hd (bs @ [base L]) \<and>
        r \<notin> set (pre @ prev # bs) \<and> heap_inv L s' (tl (pre @ prev # bs))) \<and>
     (s_size t r \<noteq> n \<longrightarrow>
        (let rest = s_size t r - n; r' = r + unat rest * sizeof_Header L
         in ptr = r' + sizeof_Header L \<and> r < r' \<and>
            r' + unat n * sizeof_Header L = blk_end L t r \<and>
            s_size s' = (s_size t)(r := rest, r' := n) \<and> s_size s' r = rest \<and>
            s_size s' r' = n \<and> s_ptr s' = s_ptr t \<and> heap_inv L s' ts))"


subsection \<open>Sequences of allocations\<close>




subsection \<open>Fresh allocators\<close>

text \<open>An allocator that has never been called, in a well-formed arena.\<close>

definition fresh :: "layout \<Rightarrow> heap \<Rightarrow> bool" where
  "fresh L s \<longleftrightarrow> layout_ok L \<and> arena_ok L s \<and> freep s = 0"

subsection \<open>A small heap\<close>

text \<open>
  A layout with 16-byte headers and a 64-bit \<^verbatim>\<open>size_t\<close>, one with 8-byte headers and
  a 32-bit \<^verbatim>\<open>size_t\<close>, and a heap whose free list is the sentinel at 16 and one block of
  10 units at 4096, the cursor on the sentinel.
\<close>

definition ex_layout :: layout where
  "ex_layout = \<lparr>sizeof_Header = 16, size_t_bits = 64, base = 16\<rparr>"

definition ex_layout32 :: layout where
  "ex_layout32 = \<lparr>sizeof_Header = 8, size_t_bits = 32, base = 8\<rparr>"

definition ex_heap :: heap where
  "ex_heap = \<lparr>s_ptr = (\<lambda>_. 0)(16 := 4096, 4096 := 16), s_size = (\<lambda>_. 0)(4096 := 10),
               freep = 16, brk = 8192, lim = 65536\<rparr>"

text \<open>
  A heap whose free list is the sentinel at 16, a block of 2 units at 64 and a block of
  4 units at 128, the cursor on the sentinel.
\<close>

definition ex_heap3 :: heap where
  "ex_heap3 = \<lparr>s_ptr = (\<lambda>_. 0)(16 := 64, 64 := 128, 128 := 16),
                s_size = (\<lambda>_. 0)(64 := 2, 128 := 4), freep = 16, brk = 8192, lim = 65536\<rparr>"

text \<open>
  The heap \<open>ex_heap3\<close> with room to grow and an allocated block of 2 units at 96, between
  its two free blocks and touching both.
\<close>

definition ex_heap_gap :: heap where
  "ex_heap_gap = \<lparr>s_ptr = (\<lambda>_. 0)(16 := 64, 64 := 128, 128 := 16),
                   s_size = (\<lambda>_. 0)(64 := 2, 96 := 2, 128 := 4),
                   freep = 16, brk = 8192, lim = 1048576\<rparr>"

text \<open>
  Allocators that have never been called, the managed region ending at 4096: one that
  can grow and one that cannot.
\<close>

definition ex_fresh :: heap where
  "ex_fresh = \<lparr>s_ptr = (\<lambda>_. 0), s_size = (\<lambda>_. 0), freep = 0, brk = 4096, lim = 1048576\<rparr>"

definition ex_full :: heap where
  "ex_full = \<lparr>s_ptr = (\<lambda>_. 0), s_size = (\<lambda>_. 0), freep = 0, brk = 4096, lim = 4096\<rparr>"


text \<open>
  A heap whose free list is the sentinel at 16 and two blocks of 20 units, at 4096 and
  at 8192, the cursor on the sentinel; the same heap after malloc(64), which has carved
  5 units from the tail of the first block; and that heap after free of the carved
  block, which has merged it back.
\<close>

definition ex_heap2 :: heap where
  "ex_heap2 = \<lparr>s_ptr = (\<lambda>_. 0)(16 := 4096, 4096 := 8192, 8192 := 16),
                s_size = (\<lambda>_. 0)(4096 := 20, 8192 := 20),
                freep = 16, brk = 16384, lim = 65536\<rparr>"

definition ex_heap2_taken :: heap where
  "ex_heap2_taken = ex_heap2\<lparr>s_size := (s_size ex_heap2)(4096 := 15, 4336 := 5), freep := 16\<rparr>"

definition ex_heap2_freed :: heap where
  "ex_heap2_freed =
     ex_heap2_taken\<lparr>s_ptr := (s_ptr ex_heap2_taken)(4336 := 8192, 4096 := 8192),
                     s_size := (s_size ex_heap2_taken)(4096 := 20), freep := 4096\<rparr>"

section \<open>The unit count\<close>

lemma ceil_div_alt: "0 < d \<Longrightarrow> ceil_div n d = (n + d - 1) div d"
proof -
  assume d: "0 < d"
  define r where "r = n mod d"
  define q where "q = n div d"
  have n: "n = q * d + r" by (simp add: r_def q_def)
  have rd: "r < d" using d by (simp add: r_def)
  show ?thesis
  proof (cases "r = 0")
    case True
    have "n + d - 1 = (d - 1) + q * d" using d n True by (simp add: algebra_simps)
    then have "(n + d - 1) div d = ((d - 1) + q * d) div d" by simp
    also have "\<dots> = (d - 1) div d + q" using d by (simp only: div_mult_self1)
    also have "\<dots> = q" using d by simp
    finally show ?thesis using True by (simp add: ceil_div_def q_def r_def)
  next
    case False
    have "n + d - 1 = (r - 1) + (q + 1) * d" using False n by (simp add: algebra_simps)
    then have "(n + d - 1) div d = ((r - 1) + (q + 1) * d) div d" by simp
    also have "\<dots> = (r - 1) div d + (q + 1)" using d by (simp only: div_mult_self1)
    also have "\<dots> = q + 1" using rd by simp
    finally show ?thesis using False by (simp add: ceil_div_def q_def r_def)
  qed
qed

lemma size_t_of_id: "n < 2 ^ size_t_bits L \<Longrightarrow> size_t_of L n = n"
  by (simp add: size_t_of_def)

lemma units_dec_fused:
  assumes H: "0 < sizeof_Header L"
  shows "units_dec L nbytes = size_t_of L (unat nbytes + sizeof_Header L - 1)"
proof -
  define M :: nat where "M = 2 ^ size_t_bits L"
  define a where "a = unat nbytes + sizeof_Header L"
  have M: "0 < M" by (simp add: M_def)
  have a: "0 < a" using H by (simp add: a_def)
  show ?thesis
  proof (cases "a mod M = 0")
    case True
    then obtain k where k: "a = M * k" by auto
    with a have kpos: "0 < k" by (cases k) auto
    have "a - 1 = (M - 1) + (k - 1) * M" using kpos M k by (cases k) (simp_all add: algebra_simps)
    then have "(a - 1) mod M = ((M - 1) + (k - 1) * M) mod M" by simp
    also have "\<dots> = (M - 1) mod M" by (simp only: mod_mult_self1)
    also have "\<dots> = M - 1" using M by simp
    finally show ?thesis using True
      by (simp add: units_dec_def units_sum_def size_t_dec_def size_t_of_def M_def [symmetric] a_def [symmetric])
  next
    case False
    define r where "r = a mod M"
    define q where "q = a div M"
    have r: "0 < r" "r < M" using False M by (simp_all add: r_def)
    have "a = r + q * M" by (simp add: r_def q_def)
    then have "a - 1 = (r - 1) + q * M" using r by simp
    then have "(a - 1) mod M = ((r - 1) + q * M) mod M" by simp
    also have "\<dots> = (r - 1) mod M" by (simp only: mod_mult_self1)
    also have "\<dots> = r - 1" using r by simp
    finally show ?thesis using False
      by (simp add: units_dec_def units_sum_def size_t_dec_def size_t_of_def M_def [symmetric] a_def [symmetric] r_def)
  qed
qed

lemma nunits_of_fused:
  "0 < sizeof_Header L \<Longrightarrow>
   nunits_of L nbytes =
     word_of_nat (size_t_of L (size_t_of L (unat nbytes + sizeof_Header L - 1) div sizeof_Header L + 1))"
  by (simp only: nunits_of_def units_dec_fused)

lemma units_bound:
  assumes H2: "2 \<le> (H::nat)" and n32: "n < 2 ^ 32"
  shows "(n + H - 1) div H + 1 < 2 ^ 32"
proof -
  have "(n + H - 1) div H \<le> (n + H) div H" by (rule div_le_mono) simp
  also have "\<dots> = n div H + 1" using H2 by (subst div_add_self2) simp_all
  also have "\<dots> \<le> n div 2 + 1" using H2 by (simp add: div_le_mono2)
  finally show ?thesis using n32 by simp
qed

lemma nunits_no_wrap:
  assumes H2: "2 \<le> sizeof_Header L" and W: "32 \<le> size_t_bits L"
    and fit: "unat nbytes + sizeof_Header L \<le> 2 ^ size_t_bits L"
  shows "unat (nunits_of L nbytes) = (unat nbytes + sizeof_Header L - 1) div sizeof_Header L + 1"
proof -
  define H where "H = sizeof_Header L"
  define n where "n = unat nbytes"
  define q where "q = (n + H - 1) div H"
  have n32: "n < 2 ^ 32" unfolding n_def using unsigned_less [of nbytes] by simp
  have "n + H - 1 < 2 ^ size_t_bits L" using fit H2 by (simp add: H_def n_def)
  then have a: "size_t_of L (n + H - 1) = n + H - 1" by (rule size_t_of_id)
  have q32: "q + 1 < 2 ^ 32" unfolding q_def using H2 n32 by (intro units_bound) (simp_all add: H_def)
  have "(2::nat) ^ 32 \<le> 2 ^ size_t_bits L" using W by (rule power_increasing) simp
  with q32 have "q + 1 < 2 ^ size_t_bits L" by linarith
  then have b: "size_t_of L (q + 1) = q + 1" by (rule size_t_of_id)
  have c: "unat (word_of_nat (q + 1) :: uint) = q + 1"
    using q32 by (simp only: unat_of_nat) simp
  have "nunits_of L nbytes = word_of_nat (size_t_of L (size_t_of L (n + H - 1) div H + 1))"
    using H2 by (simp only: H_def n_def) (simp add: nunits_of_fused)
  also have "\<dots> = word_of_nat (q + 1)" using b by (simp only: a q_def [symmetric])
  finally have "unat (nunits_of L nbytes) = q + 1" by (simp only: c)
  then show ?thesis by (simp only: q_def n_def H_def)
qed

lemma nunits_wrapped:
  assumes H2: "2 \<le> sizeof_Header L" and HW: "sizeof_Header L < 2 ^ size_t_bits L"
    and W: "32 \<le> size_t_bits L" and big: "2 ^ size_t_bits L < unat nbytes + sizeof_Header L"
  shows "units_sum L nbytes = unat nbytes + sizeof_Header L - 2 ^ size_t_bits L"
    "nunits_of L nbytes = 1"
proof -
  define H where "H = sizeof_Header L"
  define n where "n = unat nbytes"
  define M :: nat where "M = 2 ^ size_t_bits L"
  have "(2::nat) ^ 32 \<le> 2 ^ size_t_bits L" using W by (rule power_increasing) simp
  moreover have "n < 2 ^ 32" unfolding n_def using unsigned_less [of nbytes] by simp
  ultimately have n32: "n < M" by (simp add: M_def)
  have HM: "H < M" "2 \<le> H" "M < n + H" using HW H2 big by (simp_all add: H_def M_def n_def)
  have M1: "1 < M" using HM by linarith
  have "n + H = (n + H - M) + 1 * M" using HM by simp
  then have "(n + H) mod M = ((n + H - M) + 1 * M) mod M" by simp
  also have "\<dots> = (n + H - M) mod M" by (simp only: mod_mult_self1)
  also have "\<dots> = n + H - M" using n32 HM by simp
  finally show s: "units_sum L nbytes = unat nbytes + sizeof_Header L - 2 ^ size_t_bits L"
    by (simp add: units_sum_def size_t_of_def M_def H_def n_def)
  have "0 < n + H - M" using HM by simp
  then have "units_dec L nbytes = n + H - M - 1"
    using s by (simp add: units_dec_def size_t_dec_def M_def H_def n_def)
  moreover have "n + H - M - 1 < H" using n32 HM by simp
  ultimately have "units_dec L nbytes div H = 0" by simp
  moreover have "size_t_of L 1 = 1" using M1 by (intro size_t_of_id) (simp add: M_def)
  ultimately show "nunits_of L nbytes = 1" by (simp add: nunits_of_def H_def)
qed

lemma spec_units_ge2: "0 < n \<Longrightarrow> 2 \<le> H \<Longrightarrow> 2 \<le> spec_units H n"
  by (auto simp: spec_units_def ceil_div_def Suc_le_eq div_greater_zero_iff intro!: Nat.gr0I)

lemma units_sum_exact:
  "0 < sizeof_Header L \<Longrightarrow> unat nbytes + sizeof_Header L < 2 ^ size_t_bits L \<Longrightarrow>
     units_sum L nbytes = unat nbytes + sizeof_Header L \<and>
     units_dec L nbytes = unat nbytes + sizeof_Header L - 1"
  by (simp add: units_sum_def units_dec_def size_t_dec_def size_t_of_def)

lemma units_sum_boundary:
  "unat nbytes + sizeof_Header L = 2 ^ size_t_bits L \<Longrightarrow>
     units_sum L nbytes = 0 \<and> units_dec L nbytes = 2 ^ size_t_bits L - 1"
  by (simp add: units_sum_def units_dec_def size_t_dec_def size_t_of_def)

lemma nunits_value:
  assumes H2: "2 \<le> sizeof_Header L" and W: "32 \<le> size_t_bits L"
    and fit: "unat nbytes + sizeof_Header L \<le> 2 ^ size_t_bits L"
  shows "unat (nunits_of L nbytes) = units_dec L nbytes div sizeof_Header L + 1"
    "unat (nunits_of L nbytes) = spec_units (sizeof_Header L) (unat nbytes)"
proof -
  have H: "0 < sizeof_Header L" using H2 by simp
  have "unat nbytes + sizeof_Header L - 1 < 2 ^ size_t_bits L" using fit H by linarith
  then have d: "units_dec L nbytes = unat nbytes + sizeof_Header L - 1"
    by (simp add: units_dec_fused [OF H] size_t_of_id)
  have v: "unat (nunits_of L nbytes) = (unat nbytes + sizeof_Header L - 1) div sizeof_Header L + 1"
    using H2 W fit by (rule nunits_no_wrap)
  then show "unat (nunits_of L nbytes) = units_dec L nbytes div sizeof_Header L + 1"
    by (simp only: d)
  show "unat (nunits_of L nbytes) = spec_units (sizeof_Header L) (unat nbytes)"
    using v H by (simp add: spec_units_def ceil_div_alt)
qed

text \<open>
  C10, as amended. Let the header have at least two bytes and \<^verbatim>\<open>size_t\<close> at least 32
  bits. While nbytes + sizeof(Header) is below the range of \<^verbatim>\<open>size_t\<close>, no step of line
  92 wraps or truncates, and the count is the spec's ceil(nbytes / sizeof(Header)) + 1.
  When the sum is exactly the range (with 32 bits: nbytes = 2^32 - sizeof(Header)), it
  wraps to 0 and the decrement wraps back to the largest value; the count is still the
  spec's. When the sum exceeds the range, it wraps, the count is 1 and is not the
  spec's. A \<^verbatim>\<open>size_t\<close> wide enough for 2^32 + sizeof(Header) is always in the first case.
\<close>

theorem nunits_wraps_and_value:
  assumes H2: "2 \<le> sizeof_Header L" and HW: "sizeof_Header L < 2 ^ size_t_bits L"
    and W: "32 \<le> size_t_bits L"
  shows "(unat nbytes + sizeof_Header L < 2 ^ size_t_bits L \<longrightarrow>
            units_sum L nbytes = unat nbytes + sizeof_Header L \<and>
            units_dec L nbytes = unat nbytes + sizeof_Header L - 1 \<and>
            unat (nunits_of L nbytes) = units_dec L nbytes div sizeof_Header L + 1 \<and>
            unat (nunits_of L nbytes) = spec_units (sizeof_Header L) (unat nbytes)) \<and>
         (unat nbytes + sizeof_Header L = 2 ^ size_t_bits L \<longrightarrow>
            units_sum L nbytes = 0 \<and> units_dec L nbytes = 2 ^ size_t_bits L - 1 \<and>
            unat (nunits_of L nbytes) = spec_units (sizeof_Header L) (unat nbytes)) \<and>
         (2 ^ size_t_bits L < unat nbytes + sizeof_Header L \<longrightarrow>
            units_sum L nbytes = unat nbytes + sizeof_Header L - 2 ^ size_t_bits L \<and>
            nunits_of L nbytes = 1 \<and>
            unat (nunits_of L nbytes) \<noteq> spec_units (sizeof_Header L) (unat nbytes)) \<and>
         (2 ^ 32 + sizeof_Header L \<le> 2 ^ size_t_bits L \<longrightarrow>
            unat nbytes + sizeof_Header L < 2 ^ size_t_bits L)"
proof (intro conjI impI)
  assume lt: "unat nbytes + sizeof_Header L < 2 ^ size_t_bits L"
  then show "units_sum L nbytes = unat nbytes + sizeof_Header L"
    and "units_dec L nbytes = unat nbytes + sizeof_Header L - 1"
    using units_sum_exact [of L nbytes] H2 by simp_all
  from lt have le: "unat nbytes + sizeof_Header L \<le> 2 ^ size_t_bits L" by simp
  show "unat (nunits_of L nbytes) = units_dec L nbytes div sizeof_Header L + 1"
    using H2 W le by (rule nunits_value)
  show "unat (nunits_of L nbytes) = spec_units (sizeof_Header L) (unat nbytes)"
    using H2 W le by (rule nunits_value)
next
  assume eq: "unat nbytes + sizeof_Header L = 2 ^ size_t_bits L"
  then show "units_sum L nbytes = 0" and "units_dec L nbytes = 2 ^ size_t_bits L - 1"
    using units_sum_boundary [of nbytes L] by simp_all
  from eq have le: "unat nbytes + sizeof_Header L \<le> 2 ^ size_t_bits L" by simp
  show "unat (nunits_of L nbytes) = spec_units (sizeof_Header L) (unat nbytes)"
    using H2 W le by (rule nunits_value)
next
  assume big: "2 ^ size_t_bits L < unat nbytes + sizeof_Header L"
  show "units_sum L nbytes = unat nbytes + sizeof_Header L - 2 ^ size_t_bits L"
    using H2 HW W big by (rule nunits_wrapped)
  show one: "nunits_of L nbytes = 1" using H2 HW W big by (rule nunits_wrapped)
  have "0 < unat nbytes" using big HW by simp
  then have "2 \<le> spec_units (sizeof_Header L) (unat nbytes)" using H2 by (rule spec_units_ge2)
  with one show "unat (nunits_of L nbytes) \<noteq> spec_units (sizeof_Header L) (unat nbytes)" by simp
next
  assume wide: "2 ^ 32 + sizeof_Header L \<le> 2 ^ size_t_bits L"
  have "unat nbytes < 2 ^ 32" using unsigned_less [of nbytes] by simp
  with wide show "unat nbytes + sizeof_Header L < 2 ^ size_t_bits L" by linarith
qed

theorem nunits_wraps_and_value_witness:
  "unat (nunits_of ex_layout32 64) = spec_units 8 64 \<and>
   units_sum ex_layout32 4294967288 = 0 \<and> units_dec ex_layout32 4294967288 = 4294967295 \<and>
   unat (nunits_of ex_layout32 4294967288) = spec_units 8 4294967288 \<and>
   nunits_of ex_layout32 4294967295 = 1 \<and>
   unat (nunits_of ex_layout32 4294967295) \<noteq> spec_units 8 4294967295 \<and>
   units_sum ex_layout 4294967295 = 4294967311 \<and>
   unat (nunits_of ex_layout 4294967295) = spec_units 16 4294967295"
  using nunits_wraps_and_value [of ex_layout32 64]
    nunits_wraps_and_value [of ex_layout32 4294967288]
    nunits_wraps_and_value [of ex_layout32 4294967295]
    nunits_wraps_and_value [of ex_layout 4294967295]
  by (simp add: ex_layout32_def ex_layout_def spec_units_def ceil_div_def)

text \<open>
  The claim as stated fails at nbytes = 2^32 - 8 with 8-byte headers and a 32-bit
  \<^verbatim>\<open>size_t\<close>: the request is within the claimed bound, and the sum wraps.
\<close>

theorem nunits_boundary_wraps:
  "unat (4294967288 :: uint) \<le> 2 ^ 32 - sizeof_Header ex_layout32 \<and>
   units_sum ex_layout32 4294967288 \<noteq> unat (4294967288 :: uint) + sizeof_Header ex_layout32"
  by (simp add: units_sum_def size_t_of_def ex_layout32_def)

section \<open>Differences of block sizes\<close>

lemma word_diff_pos: "n \<le> (a::uint) \<Longrightarrow> a \<noteq> n \<Longrightarrow> 0 < unat (a - n) \<and> unat (a - n) = unat a - unat n \<and> unat n < unat a"
  by (metis unat_sub word_le_nat_alt word_unat_eq_iff le_neq_implies_less zero_less_diff)

section \<open>Cyclic lists and the scan of free\<close>

lemma chain_append: "chain f p (as @ bs) q \<longleftrightarrow> (\<exists>m. chain f p as m \<and> chain f m bs q)"
  by (induction as arbitrary: p) auto

lemma chain_upd: "u \<notin> set as \<Longrightarrow> chain (f(u := v)) p as q = chain f p as q"
  by (induction as arbitrary: p) auto

lemma chain_cong: "(\<And>x. x \<in> set as \<Longrightarrow> f x = g x) \<Longrightarrow> chain f p as q = chain g p as q"
  by (induction as arbitrary: p) auto

lemma chain_hd: "chain f p as q \<Longrightarrow> as \<noteq> [] \<Longrightarrow> hd as = p"
  by (cases as) auto

lemma chain_snoc: "chain f p (as @ [x]) q \<longleftrightarrow> chain f p as x \<and> f x = q"
  by (auto simp: chain_append)

lemma cyclic_rotate1: "cyclic s ns \<Longrightarrow> cyclic s (rotate1 ns)"
proof (cases ns)
  case Nil
  then show "cyclic s ns \<Longrightarrow> cyclic s (rotate1 ns)" by (simp add: cyclic_def)
next
  case (Cons x xs)
  assume "cyclic s ns"
  then have d: "distinct (x # xs)" and c: "chain (s_ptr s) (s_ptr s x) xs x"
    by (simp_all add: cyclic_def Cons)
  have "chain (s_ptr s) (hd (xs @ [x])) (xs @ [x]) (hd (xs @ [x]))"
  proof (cases xs)
    case Nil
    with c show ?thesis by simp
  next
    case (Cons y ys)
    with c show ?thesis by (simp add: chain_snoc)
  qed
  with d show ?thesis by (simp add: cyclic_def Cons)
qed

lemma cyclic_rotate: "cyclic s ns \<Longrightarrow> cyclic s (rotate n ns)"
  by (induction n) (simp_all add: cyclic_rotate1)

lemma cyclic_from:
  assumes "cyclic s ns" "p \<in> set ns"
  obtains ms where "cyclic s (p # ms)" "set (p # ms) = set ns" "length (p # ms) = length ns"
proof -
  from assms(2) obtain i where i: "i < length ns" "ns ! i = p" by (auto simp: in_set_conv_nth)
  have ne: "ns \<noteq> []" using assms(1) by (simp add: cyclic_def)
  have "hd (rotate i ns) = p" using i ne by (simp add: hd_rotate_conv_nth)
  moreover have "rotate i ns \<noteq> []" using ne by simp
  ultimately obtain ms where ms: "rotate i ns = p # ms" by (cases "rotate i ns") auto
  have "cyclic s (p # ms)" using cyclic_rotate [OF assms(1), of i] ms by simp
  moreover have "set (p # ms) = set ns" using ms [symmetric] by simp
  moreover have "length (p # ms) = length ns" using ms [symmetric] by simp
  ultimately show ?thesis by (rule that)
qed

lemma cyclic_closed: "cyclic s ns \<Longrightarrow> x \<in> set ns \<Longrightarrow> s_ptr s x \<in> set ns"
proof -
  assume c: "cyclic s ns" and x: "x \<in> set ns"
  from cyclic_from [OF c x] obtain ms where ms: "cyclic s (x # ms)" "set (x # ms) = set ns" by blast
  then have "chain (s_ptr s) (s_ptr s x) ms x" by (simp add: cyclic_def)
  then have "s_ptr s x \<in> set (x # ms)" by (cases ms) auto
  with ms show ?thesis by simp
qed

text \<open>A stopping node always exists on a finite set of nodes closed under the link.\<close>

lemma scan_stop_exists:
  assumes fin: "finite S" and ne: "S \<noteq> {}" and closed: "\<And>x. x \<in> S \<Longrightarrow> s_ptr s x \<in> S"
    and bp: "bp \<notin> S"
  shows "\<exists>x\<in>S. scan_stop s bp x"
proof (cases "\<exists>x\<in>S. x < bp")
  case True
  define Low where "Low = {x \<in> S. x < bp}"
  have lf: "finite Low" "Low \<noteq> {}" using fin True by (auto simp: Low_def)
  define m where "m = Max Low"
  have mL: "m \<in> Low" unfolding m_def using lf by (rule Max_in)
  then have mS: "m \<in> S" and mbp: "m < bp" by (auto simp: Low_def)
  have fm: "s_ptr s m \<in> S" using closed mS .
  show ?thesis
  proof (cases "bp < s_ptr s m")
    case True
    with mbp mS show ?thesis by (auto simp: scan_stop_def)
  next
    case False
    moreover have "s_ptr s m \<noteq> bp" using fm bp by auto
    ultimately have "s_ptr s m < bp" by linarith
    with fm have "s_ptr s m \<in> Low" by (simp add: Low_def)
    then have "s_ptr s m \<le> m" unfolding m_def using lf by simp
    with mbp mS show ?thesis by (auto simp: scan_stop_def)
  qed
next
  case False
  define m where "m = Max S"
  have mS: "m \<in> S" unfolding m_def using fin ne by (rule Max_in)
  have fm: "s_ptr s m \<in> S" using closed mS .
  then have "s_ptr s m \<le> m" unfolding m_def using fin by simp
  moreover have "s_ptr s m \<noteq> bp" using fm bp by auto
  moreover have "\<not> s_ptr s m < bp" using False fm by auto
  ultimately have "s_ptr s m \<le> m" "bp < s_ptr s m" by linarith+
  then show ?thesis using mS by (auto simp: scan_stop_def)
qed

lemma free_scan_stop: "scan_stop s bp p \<Longrightarrow> free_scan s bp p = Some p"
  by (subst free_scan.simps) (auto simp: scan_stop_def)

lemma free_scan_step: "\<not> scan_stop s bp p \<Longrightarrow> free_scan s bp p = free_scan s bp (s_ptr s p)"
  by (subst free_scan.simps) (auto simp: scan_stop_def)

lemma free_scan_trace_stop: "scan_stop s bp p \<Longrightarrow> free_scan_trace s bp p = Some [p]"
  by (subst free_scan_trace.simps) (auto simp: scan_stop_def)

lemma free_scan_trace_step:
  "\<not> scan_stop s bp p \<Longrightarrow>
     free_scan_trace s bp p = Option.bind (free_scan_trace s bp (s_ptr s p)) (\<lambda>vs. Some (p # vs))"
  by (subst free_scan_trace.simps) (auto simp: scan_stop_def)

lemma scan_along:
  assumes "chain (s_ptr s) p us r" "\<forall>u\<in>set us. \<not> scan_stop s bp u" "scan_stop s bp r"
  shows "free_scan s bp p = Some r \<and> free_scan_trace s bp p = Some (us @ [r])"
  using assms
proof (induction us arbitrary: p)
  case Nil
  then show ?case by (simp add: free_scan_stop free_scan_trace_stop)
next
  case (Cons u us)
  then have "p = u" "\<not> scan_stop s bp u" by simp_all
  with Cons show ?case by (simp add: free_scan_step free_scan_trace_step)
qed

lemma scan_cyclic:
  assumes cyc: "cyclic s ns" and st: "start \<in> set ns" and ex: "\<exists>x\<in>set ns. scan_stop s bp x"
  shows "\<exists>us r. free_scan s bp start = Some r \<and> free_scan_trace s bp start = Some (us @ [r]) \<and>
           scan_stop s bp r \<and> (\<forall>u\<in>set us. \<not> scan_stop s bp u) \<and>
           distinct (us @ [r]) \<and> set (us @ [r]) \<subseteq> set ns"
proof -
  from cyclic_from [OF cyc st] obtain ms where
    ms: "cyclic s (start # ms)" "set (start # ms) = set ns" by blast
  from ex ms(2) have "\<exists>x\<in>set (start # ms). scan_stop s bp x" by simp
  then obtain us r vs where
    split: "start # ms = us @ r # vs" and r: "scan_stop s bp r"
    and us: "\<forall>u\<in>set us. \<not> scan_stop s bp u"
    using split_list_first_prop [of "start # ms" "scan_stop s bp"] by blast
  have "chain (s_ptr s) start (start # ms) start" using ms(1) by (simp add: cyclic_def)
  then have "chain (s_ptr s) start (us @ r # vs) start" unfolding split .
  then obtain m where "chain (s_ptr s) start us m" "chain (s_ptr s) m (r # vs) start"
    by (auto simp: chain_append)
  then have "chain (s_ptr s) start us r" by simp
  from scan_along [OF this us r]
  have "free_scan s bp start = Some r" "free_scan_trace s bp start = Some (us @ [r])" by simp_all
  moreover have "distinct (start # ms)" using ms(1) by (simp add: cyclic_def)
  then have "distinct (us @ [r])" unfolding split by simp
  moreover have "set (us @ [r]) \<subseteq> set ns" using ms(2) split by auto
  ultimately show ?thesis using r us by blast
qed

text \<open>
  C7. On a cyclic list of nodes that contains the cursor, and for a block \<open>bp\<close> that is not
  one of its nodes (a block to be freed is not on the free list), the scan of free
  returns. The nodes it visits are nodes of the list, each visited once, so at most as
  many as the list has; it stops at the first node that passes one of the two tests,
  and when \<open>bp\<close> lies above every node or below every node that node is at the wrap
  (its successor is not above it).
\<close>

theorem free_scan_one_traversal:
  assumes cyc: "cyclic s ns" and st: "freep s \<in> set ns" and bp: "bp \<notin> set ns"
  shows "\<exists>vs. free_scan_trace s bp (freep s) = Some vs \<and>
           free_scan s bp (freep s) = Some (last vs) \<and> vs \<noteq> [] \<and>
           distinct vs \<and> set vs \<subseteq> set ns \<and> length vs \<le> length ns \<and>
           scan_stop s bp (last vs) \<and> (\<forall>v\<in>set (butlast vs). \<not> scan_stop s bp v) \<and>
           ((\<forall>x\<in>set ns. x < bp) \<or> (\<forall>x\<in>set ns. bp < x) \<longrightarrow> s_ptr s (last vs) \<le> last vs)"
proof -
  have "\<exists>x\<in>set ns. scan_stop s bp x"
    using cyc bp by (intro scan_stop_exists) (auto simp: cyclic_def cyclic_closed)
  from scan_cyclic [OF cyc st this] obtain us r where
    *: "free_scan s bp (freep s) = Some r" "free_scan_trace s bp (freep s) = Some (us @ [r])"
       "scan_stop s bp r" "distinct (us @ [r])" "set (us @ [r]) \<subseteq> set ns"
       "\<forall>u\<in>set us. \<not> scan_stop s bp u" by blast
  have "card (set (us @ [r])) \<le> card (set ns)" using *(5) by (intro card_mono) simp_all
  then have len: "length (us @ [r]) \<le> length ns"
    using *(4) cyc by (simp only: distinct_card) (simp add: cyclic_def distinct_card)
  have r: "r \<in> set ns" using *(5) by simp
  then have fr: "s_ptr s r \<in> set ns" using cyc by (simp add: cyclic_closed)
  have wrap: "(\<forall>x\<in>set ns. x < bp) \<or> (\<forall>x\<in>set ns. bp < x) \<longrightarrow> s_ptr s r \<le> r"
    using r fr *(3) by (auto simp: scan_stop_def)
  show ?thesis using * len wrap by (intro exI [of _ "us @ [r]"]) simp
qed

theorem free_scan_one_traversal_witness:
  "\<exists>vs. free_scan_trace ex_heap 8192 (freep ex_heap) = Some vs \<and>
      free_scan ex_heap 8192 (freep ex_heap) = Some (last vs) \<and> vs \<noteq> [] \<and>
      distinct vs \<and> set vs \<subseteq> set [16, 4096] \<and> length vs \<le> length [16, 4096 :: nat] \<and>
      scan_stop ex_heap 8192 (last vs) \<and> (\<forall>v\<in>set (butlast vs). \<not> scan_stop ex_heap 8192 v) \<and>
      s_ptr ex_heap (last vs) \<le> last vs"
  using free_scan_one_traversal [of ex_heap "[16, 4096]" 8192]
  by (simp add: ex_heap_def cyclic_def)

section \<open>free keeps the heap well formed\<close>

lemma blk_end_ge: "x \<le> blk_end L s x" by (simp add: blk_end_def)

lemma blk_end_gt: "0 < sizeof_Header L \<Longrightarrow> s_size s x \<noteq> 0 \<Longrightarrow> x < blk_end L s x"
  by (simp add: blk_end_def unat_gt_0)

lemma blk_end_cong: "s_size s' x = s_size s x \<Longrightarrow> blk_end L s' x = blk_end L s x"
  by (simp add: blk_end_def)

lemma sep_cons_append:
  "sep L s lo (pre @ p # bs) \<longleftrightarrow> sep L s lo (pre @ [p]) \<and> sep L s (blk_end L s p) bs"
  by (induction pre arbitrary: lo) auto

lemma sep_mono: "lo' \<le> lo \<Longrightarrow> sep L s lo xs \<Longrightarrow> sep L s lo' xs"
  by (cases xs) auto

lemma sep_lower: "sep L s lo xs \<Longrightarrow> x \<in> set xs \<Longrightarrow> lo < x"
proof (induction xs arbitrary: lo)
  case Nil
  then show ?case by simp
next
  case (Cons y ys)
  show ?case
  proof (cases "x = y")
    case True
    with Cons.prems show ?thesis by simp
  next
    case False
    with Cons.prems have "blk_end L s y < x" by (intro Cons.IH) simp_all
    moreover have "lo < y" "y \<le> blk_end L s y" using Cons.prems by (simp_all add: blk_end_ge)
    ultimately show ?thesis by linarith
  qed
qed

lemma sep_snoc_lt: "sep L s lo (pre @ [p]) \<Longrightarrow> x \<in> set pre \<Longrightarrow> blk_end L s x < p"
  by (induction pre arbitrary: lo) (auto dest: sep_lower)

lemma sep_cong_snoc:
  "(\<And>x. x \<in> set pre \<Longrightarrow> s_size s' x = s_size s x) \<Longrightarrow>
     sep L s' lo (pre @ [p]) = sep L s lo (pre @ [p])"
  by (induction pre arbitrary: lo) (auto simp: blk_end_def)

lemma sep_cong:
  "(\<And>x. x \<in> set xs \<Longrightarrow> s_size s' x = s_size s x) \<Longrightarrow> sep L s' lo xs = sep L s lo xs"
  by (induction xs arbitrary: lo) (auto simp: blk_end_def)

lemma sep_distinct: "sep L s lo xs \<Longrightarrow> distinct xs"
proof (induction xs arbitrary: lo)
  case Nil
  then show ?case by simp
next
  case (Cons y ys)
  then have "sep L s (blk_end L s y) ys" by simp
  then have "\<forall>x\<in>set ys. blk_end L s y < x" by (auto dest: sep_lower)
  then have "y \<notin> set ys" using blk_end_ge [of y L s] by force
  with Cons show ?case by auto
qed

lemma heap_inv_wfl: "heap_inv L s xs \<longleftrightarrow> wfl L s (base L # xs)"
  by (auto simp: heap_inv_def wfl_def cyclic_def)

lemma wfl_heap_inv: "wfl L s ns \<Longrightarrow> heap_inv L s (tl ns)"
  by (cases ns) (auto simp: heap_inv_wfl wfl_def cyclic_def)

lemma free_at_facts:
  assumes "free_at L s pre p bs bp"
  shows "0 < sizeof_Header L" "chain (s_ptr s) (base L) pre p" "chain (s_ptr s) (s_ptr s p) bs (base L)"
    "distinct (pre @ p # bs)" "bp \<notin> set (pre @ p # bs)" "p < bp" "bp < blk_end L s bp"
    "sep L s 0 (pre @ [p])" "sep L s (blk_end L s p) bs" "base L < bp"
    "s_ptr s p = hd (bs @ [base L])"
proof -
  from assms have w: "wfl L s (pre @ p # bs)" and ok: "blk_ok L s bp"
    and below: "blk_end L s p \<le> bp" and above: "\<forall>b\<in>set bs. blk_end L s bp \<le> b"
    by (simp_all add: free_at_def)
  show H: "0 < sizeof_Header L" using w by (simp add: wfl_def layout_ok_def)
  have hd: "hd (pre @ p # bs) = base L" using w by (simp add: wfl_def)
  have "chain (s_ptr s) (base L) (pre @ p # bs) (base L)" using w hd by (simp add: wfl_def cyclic_def)
  then show c1: "chain (s_ptr s) (base L) pre p" and c2: "chain (s_ptr s) (s_ptr s p) bs (base L)"
    by (auto simp: chain_append)
  show d: "distinct (pre @ p # bs)" using w by (simp add: wfl_def cyclic_def)
  have sp: "sep L s 0 (pre @ p # bs)" using w by (simp add: wfl_def)
  then show s1: "sep L s 0 (pre @ [p])" and s2: "sep L s (blk_end L s p) bs"
    using sep_cons_append [of L s 0 pre p bs] by simp_all
  show bbp: "base L < bp" using ok H by (simp add: blk_ok_def)
  show e: "bp < blk_end L s bp" using ok H by (simp add: blk_ok_def blk_end_gt)
  show pbp: "p < bp"
  proof (cases "p = base L")
    case True
    with bbp show ?thesis by simp
  next
    case False
    then have "blk_ok L s p" using w by (simp add: wfl_def)
    then have "p < blk_end L s p" using H by (simp add: blk_ok_def blk_end_gt)
    with below show ?thesis by simp
  qed
  have "\<forall>x\<in>set pre. x < p"
  proof
    fix x assume "x \<in> set pre"
    from sep_snoc_lt [OF s1 this] blk_end_ge [of x L s] show "x < p" by linarith
  qed
  with pbp e above show "bp \<notin> set (pre @ p # bs)" by force
  show "s_ptr s p = hd (bs @ [base L])" using c2 by (cases bs) auto
qed

lemma sep_above:
  assumes "sep L s lo bs" "\<forall>b\<in>set bs. e \<le> b" "e \<noteq> hd (bs @ [z])"
  shows "sep L s e bs"
  using assms by (cases bs) auto

lemma free_link_A:
  assumes fa: "free_at L s pre p bs bp"
    and nf: "blk_end L s bp \<noteq> s_ptr s p" and nb: "blk_end L s p \<noteq> bp"
  shows "wfl L (free_link L bp p s) (pre @ p # bp # bs)"
proof -
  note f = free_at_facts [OF fa]
  from fa have w: "wfl L s (pre @ p # bs)" and ok: "blk_ok L s bp"
    and below: "blk_end L s p \<le> bp" and above: "\<forall>b\<in>set bs. blk_end L s bp \<le> b"
    by (simp_all add: free_at_def)
  define s' where "s' = free_link L bp p s"
  have ne: "p \<noteq> bp" using f(6) by simp
  have s': "s' = s\<lparr>s_ptr := (s_ptr s)(bp := s_ptr s p, p := bp), freep := p\<rparr>"
    using nf nb ne by (simp add: s'_def free_link_def Let_def blk_end_def)
  have sz: "s_size s' = s_size s" and br: "brk s' = brk s" "lim s' = lim s" and fp: "freep s' = p"
    by (simp_all add: s')
  have be: "\<And>x. blk_end L s' x = blk_end L s x" by (simp add: blk_end_def sz)
  have "chain (s_ptr s') (base L) pre p"
    using f(2) f(4) f(5) by (simp add: s' chain_upd)
  moreover have "chain (s_ptr s') (s_ptr s p) bs (base L)"
    using f(3) f(4) f(5) by (simp add: s' chain_upd)
  moreover have "s_ptr s' p = bp" "s_ptr s' bp = s_ptr s p" using ne by (simp_all add: s')
  ultimately have ch: "chain (s_ptr s') (base L) (pre @ p # bp # bs) (base L)"
    by (auto simp: chain_append)
  have hd: "hd (pre @ p # bs) = base L" using w by (simp add: wfl_def)
  then have hd': "hd (pre @ p # bp # bs) = base L" by (cases pre) auto
  have cyc: "cyclic s' (pre @ p # bp # bs)"
    using ch hd' f(4) f(5) by (auto simp: cyclic_def)
  have "sep L s (blk_end L s bp) bs"
    using f(9) above nf f(11) by (rule_tac sep_above [where z = "base L"]) auto
  then have "sep L s' (blk_end L s' bp) bs" using sep_cong [of bs s' s L] by (simp add: be sz)
  moreover have "sep L s' 0 (pre @ [p])" using f(8) sep_cong [of "pre @ [p]" s' s L] by (simp add: sz)
  moreover have "blk_end L s' p < bp" using below nb by (simp add: be)
  ultimately have sp: "sep L s' 0 (pre @ p # bp # bs)"
    using sep_cons_append [of L s' 0 pre p "bp # bs"] by simp
  have oks: "\<forall>x\<in>set (pre @ p # bp # bs). x \<noteq> base L \<longrightarrow> blk_ok L s' x"
    using w ok by (auto simp: wfl_def blk_ok_def be br sz)
  show ?thesis
    using w cyc hd' sp oks
    unfolding s'_def [symmetric]
    by (simp add: wfl_def arena_ok_def br sz fp)
qed

lemma merge_size:
  fixes za zb :: uint
  assumes adj: "a + unat za * H = b" and top: "b + unat zb * H \<le> 2 ^ 32 * H"
    and a: "0 < a" and H: "0 < (H::nat)"
  shows "unat (za + zb) = unat za + unat zb"
proof -
  have "a + (unat za + unat zb) * H \<le> 2 ^ 32 * H" using adj top by (simp add: algebra_simps)
  then have "(unat za + unat zb) * H < 2 ^ 32 * H" using a by linarith
  then have "unat za + unat zb < 2 ^ 32" using H by simp
  then show ?thesis using unat_add_lem [of za zb] by simp
qed

lemma blk_end_merge:
  fixes s s' :: heap
  assumes adj: "blk_end L s a = b" and sz: "s_size s' a = s_size s a + s_size s b"
    and top: "blk_end L s b \<le> 2 ^ 32 * sizeof_Header L" and a: "0 < a" and H: "0 < sizeof_Header L"
  shows "blk_end L s' a = blk_end L s b" "s_size s a \<noteq> 0 \<Longrightarrow> s_size s' a \<noteq> 0"
    "s_size s a \<le> s_size s' a" "s_size s b \<le> s_size s' a"
proof -
  have u: "unat (s_size s a + s_size s b) = unat (s_size s a) + unat (s_size s b)"
    using adj top a H by (intro merge_size [where a = a and b = b and H = "sizeof_Header L"])
      (simp_all add: blk_end_def)
  then show "blk_end L s' a = blk_end L s b"
    using adj by (simp add: blk_end_def sz algebra_simps)
  show "s_size s a \<noteq> 0 \<Longrightarrow> s_size s' a \<noteq> 0"
    using u by (simp add: sz unat_eq_0 [symmetric] del: unat_eq_0)
  show "s_size s a \<le> s_size s' a" "s_size s b \<le> s_size s' a"
    using u by (simp_all add: sz word_le_nat_alt)
qed

lemma wfl_blk_ok: "wfl L s ns \<Longrightarrow> x \<in> set ns \<Longrightarrow> x \<noteq> base L \<Longrightarrow> blk_ok L s x"
  by (simp add: wfl_def)

lemma free_at_top:
  assumes fa: "free_at L s pre p bs bp"
  shows "blk_end L s bp \<le> 2 ^ 32 * sizeof_Header L"
    "\<And>x. x \<in> set (pre @ p # bs) \<Longrightarrow> blk_end L s x \<le> 2 ^ 32 * sizeof_Header L"
proof -
  from fa have w: "wfl L s (pre @ p # bs)" and ok: "blk_ok L s bp" by (simp_all add: free_at_def)
  have ar: "brk s \<le> 2 ^ 32 * sizeof_Header L" "base L \<le> brk s"
    using w by (simp_all add: wfl_def arena_ok_def)
  show "blk_end L s bp \<le> 2 ^ 32 * sizeof_Header L" using ok ar by (simp add: blk_ok_def)
  fix x assume x: "x \<in> set (pre @ p # bs)"
  show "blk_end L s x \<le> 2 ^ 32 * sizeof_Header L"
  proof (cases "x = base L")
    case True
    then have "blk_end L s x = base L" using w by (simp add: wfl_def blk_end_def)
    with ar show ?thesis by simp
  next
    case False
    with x w have "blk_ok L s x" by (intro wfl_blk_ok)
    with ar show ?thesis by (simp add: blk_ok_def)
  qed
qed

lemma free_at_fwd:
  assumes fa: "free_at L s pre p bs bp" and fw: "blk_end L s bp = s_ptr s p"
  obtains bs' where "bs = s_ptr s p # bs'" "chain (s_ptr s) (s_ptr s (s_ptr s p)) bs' (base L)"
    "sep L s (blk_end L s (s_ptr s p)) bs'" "s_ptr s p \<noteq> bp" "s_ptr s p \<noteq> p"
    "blk_ok L s (s_ptr s p)" "s_ptr s p \<noteq> base L"
proof -
  note f = free_at_facts [OF fa]
  from fa have w: "wfl L s (pre @ p # bs)" by (simp add: free_at_def)
  have "s_ptr s p \<noteq> base L" using fw f(7) f(10) by simp
  with f(11) obtain bs' where bs: "bs = s_ptr s p # bs'" by (cases bs) auto
  have "s_ptr s p \<noteq> base L" using fw f(7) f(10) by simp
  moreover have "s_ptr s p \<in> set (pre @ p # bs)" using bs by simp
  ultimately have "blk_ok L s (s_ptr s p)" using w by (intro wfl_blk_ok)
  moreover have "s_ptr s p \<noteq> bp" "s_ptr s p \<noteq> p" using fw f(7) f(6) by simp_all
  moreover have "chain (s_ptr s) (s_ptr s (s_ptr s p)) bs' (base L)" using f(3) bs by simp
  moreover have "sep L s (blk_end L s (s_ptr s p)) bs'" using f(9) bs by simp
  ultimately show ?thesis using bs \<open>s_ptr s p \<noteq> base L\<close> by (intro that)
qed

lemma region_simps [simp]:
  "region L s [] = {}" "region L s (x # xs) = blk L s x \<union> region L s xs"
  "region L s (xs @ ys) = region L s xs \<union> region L s ys"
  by (auto simp: region_def)

lemma blk_cong: "s_size s' x = s_size s x \<Longrightarrow> blk L s' x = blk L s x"
  by (simp add: blk_def blk_end_def)

lemma region_cong: "(\<And>x. x \<in> set ns \<Longrightarrow> s_size s' x = s_size s x) \<Longrightarrow> region L s' ns = region L s ns"
  by (simp add: region_def blk_def blk_end_def)

lemma blk_join: "blk_end L s a = b \<Longrightarrow> blk_end L s' a = blk_end L s b \<Longrightarrow> blk L s' a = blk L s a \<union> blk L s b"
  using blk_end_ge [of a L s] blk_end_ge [of b L s] by (auto simp: blk_def)

lemma sep_congI: "sep L s lo xs \<Longrightarrow> \<forall>x\<in>set xs. s_size s' x = s_size s x \<Longrightarrow> sep L s' lo xs"
  using sep_cong [of xs s' s L lo] by simp

lemma free_link_B:
  assumes fa: "free_at L s pre p bs bp"
    and fw: "blk_end L s bp = s_ptr s p" and nb: "blk_end L s p \<noteq> bp"
  shows "wfl L (free_link L bp p s) (pre @ p # bp # tl bs)"
    "region L (free_link L bp p s) (pre @ p # bp # tl bs) = region L s (pre @ p # bs) \<union> blk L s bp"
    "\<exists>x\<in>set (pre @ p # bp # tl bs). s_size s bp \<le> s_size (free_link L bp p s) x"
proof -
  note f = free_at_facts [OF fa]
  note t = free_at_top [OF fa]
  from fa have w: "wfl L s (pre @ p # bs)" and ok: "blk_ok L s bp"
    and below: "blk_end L s p \<le> bp" and above: "\<forall>b\<in>set bs. blk_end L s bp \<le> b"
    by (simp_all add: free_at_def)
  define q where "q = s_ptr s p"
  from free_at_fwd [OF fa fw] obtain bs' where bs: "bs = q # bs'"
    and cq: "chain (s_ptr s) (s_ptr s q) bs' (base L)" and sq: "sep L s (blk_end L s q) bs'"
    and qn: "q \<noteq> bp" "q \<noteq> p" and qok: "blk_ok L s q" and qb: "q \<noteq> base L"
    unfolding q_def by blast
  define s' where "s' = free_link L bp p s"
  have ne: "p \<noteq> bp" using f(6) by simp
  have s': "s' = s\<lparr>s_size := (s_size s)(bp := s_size s bp + s_size s q),
                    s_ptr := (s_ptr s)(bp := s_ptr s q, p := bp), freep := p\<rparr>"
    using fw nb ne by (simp add: s'_def free_link_def Let_def blk_end_def q_def)
  have sz: "\<And>x. x \<noteq> bp \<Longrightarrow> s_size s' x = s_size s x"
    and szb: "s_size s' bp = s_size s bp + s_size s q"
    and br: "brk s' = brk s" "lim s' = lim s" and fp: "freep s' = p"
    by (simp_all add: s')
  have be: "\<And>x. x \<noteq> bp \<Longrightarrow> blk_end L s' x = blk_end L s x" by (simp add: blk_end_def sz)
  have "q \<in> set (pre @ p # bs)" using bs by simp
  then have tq: "blk_end L s q \<le> 2 ^ 32 * sizeof_Header L" by (rule t(2))
  have fwq: "blk_end L s bp = q" using fw by (simp add: q_def)
  have bpos: "0 < bp" using f(10) by simp
  note m = blk_end_merge [OF fwq szb tq bpos f(1)]
  have nin: "bp \<notin> set pre" "p \<notin> set pre" "bp \<notin> set bs'" "p \<notin> set bs'" "bp \<notin> set bs"
    using f(4) f(5) bs by auto
  have szs: "\<forall>x\<in>set pre. s_size s' x = s_size s x" "\<forall>x\<in>set bs'. s_size s' x = s_size s x"
    "s_size s' p = s_size s p" "\<forall>x\<in>set (pre @ [p]). s_size s' x = s_size s x"
    using nin ne by (auto simp: s')
  have "chain (s_ptr s') (base L) pre p" using f(2) nin by (simp add: s' chain_upd)
  moreover have "chain (s_ptr s') (s_ptr s q) bs' (base L)" using cq nin by (simp add: s' chain_upd)
  moreover have "s_ptr s' p = bp" "s_ptr s' bp = s_ptr s q" using ne by (simp_all add: s')
  ultimately have ch: "chain (s_ptr s') (base L) (pre @ p # bp # bs') (base L)"
    by (auto simp: chain_append)
  have hd: "hd (pre @ p # bs) = base L" using w by (simp add: wfl_def)
  then have hd': "hd (pre @ p # bp # bs') = base L" by (cases pre) auto
  have cyc: "cyclic s' (pre @ p # bp # bs')"
    using ch hd' f(4) f(5) bs by (auto simp: cyclic_def)
  have "sep L s' (blk_end L s q) bs'" using sq szs(2) by (rule sep_congI)
  then have "sep L s' (blk_end L s' bp) bs'" by (simp add: m(1))
  moreover have "sep L s' 0 (pre @ [p])" using f(8) szs(4) by (rule sep_congI)
  moreover have "blk_end L s' p < bp" using below nb ne by (simp add: be)
  ultimately have sp: "sep L s' 0 (pre @ p # bp # bs')"
    using sep_cons_append [of L s' 0 pre p "bp # bs'"] by simp
  have "blk_ok L s' bp" using ok qok m(1) m(2) by (simp add: blk_ok_def br)
  moreover have "\<And>x. x \<in> set (pre @ p # bs') \<Longrightarrow> x \<noteq> base L \<Longrightarrow> blk_ok L s' x"
  proof -
    fix x assume x: "x \<in> set (pre @ p # bs')" "x \<noteq> base L"
    then have "x \<in> set (pre @ p # bs)" "x \<noteq> bp" using bs nin ne by auto
    then show "blk_ok L s' x" using wfl_blk_ok [OF w _ x(2)] by (simp add: blk_ok_def be br sz)
  qed
  ultimately have oks: "\<forall>x\<in>set (pre @ p # bp # bs'). x \<noteq> base L \<longrightarrow> blk_ok L s' x" by auto
  have zb: "s_size s' (base L) = 0" using w f(10) by (simp add: sz wfl_def)
  show "wfl L (free_link L bp p s) (pre @ p # bp # tl bs)"
    using w cyc hd' sp oks zb
    unfolding s'_def [symmetric] bs
    by (simp add: wfl_def arena_ok_def br fp)
  have "region L s' pre = region L s pre" using szs(1) by (intro region_cong) simp
  moreover have "region L s' bs' = region L s bs'" using szs(2) by (intro region_cong) simp
  moreover have "blk L s' p = blk L s p" using szs(3) by (rule blk_cong)
  moreover have "blk L s' bp = blk L s bp \<union> blk L s q" using fwq m(1) by (rule blk_join)
  ultimately show "region L (free_link L bp p s) (pre @ p # bp # tl bs) = region L s (pre @ p # bs) \<union> blk L s bp"
    unfolding s'_def [symmetric] bs by auto
  show "\<exists>x\<in>set (pre @ p # bp # tl bs). s_size s bp \<le> s_size (free_link L bp p s) x"
    unfolding s'_def [symmetric] using m(3) by auto
qed

lemma sep_snocI: "sep L s lo (pre @ [p]) \<Longrightarrow> \<forall>x\<in>set pre. s_size s' x = s_size s x \<Longrightarrow> sep L s' lo (pre @ [p])"
  using sep_cong_snoc [of pre s' s L lo p] by simp

lemma free_at_bwd:
  assumes fa: "free_at L s pre p bs bp" and bw: "blk_end L s p = bp"
  shows "p \<noteq> base L" "blk_ok L s p" "0 < p"
proof -
  note f = free_at_facts [OF fa]
  from fa have w: "wfl L s (pre @ p # bs)" by (simp add: free_at_def)
  show "p \<noteq> base L"
  proof
    assume "p = base L"
    then have "blk_end L s p = base L" using w by (simp add: wfl_def blk_end_def)
    with bw f(10) show False by simp
  qed
  then show "blk_ok L s p" by (intro wfl_blk_ok [OF w]) auto
  then show "0 < p" using f(1) by (simp add: blk_ok_def)
qed

lemma free_link_C:
  assumes fa: "free_at L s pre p bs bp"
    and nf: "blk_end L s bp \<noteq> s_ptr s p" and bw: "blk_end L s p = bp"
  shows "wfl L (free_link L bp p s) (pre @ p # bs)"
    "region L (free_link L bp p s) (pre @ p # bs) = region L s (pre @ p # bs) \<union> blk L s bp"
    "\<exists>x\<in>set (pre @ p # bs). s_size s bp \<le> s_size (free_link L bp p s) x"
proof -
  note f = free_at_facts [OF fa]
  note t = free_at_top [OF fa]
  note b = free_at_bwd [OF fa bw]
  from fa have w: "wfl L s (pre @ p # bs)" and ok: "blk_ok L s bp"
    and below: "blk_end L s p \<le> bp" and above: "\<forall>b\<in>set bs. blk_end L s bp \<le> b"
    by (simp_all add: free_at_def)
  define s' where "s' = free_link L bp p s"
  have ne: "p \<noteq> bp" using f(6) by simp
  have s': "s' = s\<lparr>s_ptr := (s_ptr s)(bp := s_ptr s p, p := s_ptr s p),
                    s_size := (s_size s)(p := s_size s p + s_size s bp), freep := p\<rparr>"
    using nf bw ne by (simp add: s'_def free_link_def Let_def blk_end_def)
  have szp: "s_size s' p = s_size s p + s_size s bp"
    and br: "brk s' = brk s" "lim s' = lim s" and fp: "freep s' = p"
    by (simp_all add: s')
  have nin: "bp \<notin> set pre" "p \<notin> set pre" "bp \<notin> set bs" "p \<notin> set bs"
    using f(4) f(5) by auto
  have szs: "\<forall>x\<in>set pre. s_size s' x = s_size s x" "\<forall>x\<in>set bs. s_size s' x = s_size s x"
    using nin by (auto simp: s')
  note m = blk_end_merge [OF bw szp t(1) b(3) f(1)]
  have "chain (s_ptr s') (base L) pre p" using f(2) nin by (simp add: s' chain_upd)
  moreover have "chain (s_ptr s') (s_ptr s p) bs (base L)" using f(3) nin by (simp add: s' chain_upd)
  moreover have "s_ptr s' p = s_ptr s p" by (simp add: s')
  ultimately have ch: "chain (s_ptr s') (base L) (pre @ p # bs) (base L)"
    by (auto simp: chain_append)
  have hd: "hd (pre @ p # bs) = base L" using w by (simp add: wfl_def)
  have cyc: "cyclic s' (pre @ p # bs)"
    using ch hd f(4) by (auto simp: cyclic_def)
  have "sep L s (blk_end L s bp) bs"
    using f(9) above nf f(11) by (rule_tac sep_above [where z = "base L"]) auto
  then have "sep L s' (blk_end L s bp) bs" using szs(2) by (rule sep_congI)
  then have "sep L s' (blk_end L s' p) bs" by (simp add: m(1))
  moreover have "sep L s' 0 (pre @ [p])" using f(8) szs(1) by (rule sep_snocI)
  ultimately have sp: "sep L s' 0 (pre @ p # bs)"
    using sep_cons_append [of L s' 0 pre p bs] by simp
  have "blk_ok L s' p" using ok b(2) m(1) m(2) by (simp add: blk_ok_def br)
  moreover have "\<And>x. x \<in> set (pre @ bs) \<Longrightarrow> x \<noteq> base L \<Longrightarrow> blk_ok L s' x"
  proof -
    fix x assume x: "x \<in> set (pre @ bs)" "x \<noteq> base L"
    then have "x \<in> set (pre @ p # bs)" "s_size s' x = s_size s x" using szs by auto
    then show "blk_ok L s' x" using wfl_blk_ok [OF w _ x(2)] by (simp add: blk_ok_def blk_end_def br)
  qed
  ultimately have oks: "\<forall>x\<in>set (pre @ p # bs). x \<noteq> base L \<longrightarrow> blk_ok L s' x" by auto
  have zb: "s_size s' (base L) = 0" using w b(1) by (simp add: s' wfl_def)
  show "wfl L (free_link L bp p s) (pre @ p # bs)"
    using w cyc hd sp oks zb
    unfolding s'_def [symmetric]
    by (simp add: wfl_def arena_ok_def br fp)
  have "region L s' pre = region L s pre" using szs(1) by (intro region_cong) simp
  moreover have "region L s' bs = region L s bs" using szs(2) by (intro region_cong) simp
  moreover have "blk L s' p = blk L s p \<union> blk L s bp" using bw m(1) by (rule blk_join)
  ultimately show "region L (free_link L bp p s) (pre @ p # bs) = region L s (pre @ p # bs) \<union> blk L s bp"
    unfolding s'_def [symmetric] by auto
  show "\<exists>x\<in>set (pre @ p # bs). s_size s bp \<le> s_size (free_link L bp p s) x"
    unfolding s'_def [symmetric] using m(4) by auto
qed

lemma free_link_D:
  assumes fa: "free_at L s pre p bs bp"
    and fw: "blk_end L s bp = s_ptr s p" and bw: "blk_end L s p = bp"
  shows "wfl L (free_link L bp p s) (pre @ p # tl bs)"
    "region L (free_link L bp p s) (pre @ p # tl bs) = region L s (pre @ p # bs) \<union> blk L s bp"
    "\<exists>x\<in>set (pre @ p # tl bs). s_size s bp \<le> s_size (free_link L bp p s) x"
proof -
  note f = free_at_facts [OF fa]
  note t = free_at_top [OF fa]
  note b = free_at_bwd [OF fa bw]
  from fa have w: "wfl L s (pre @ p # bs)" and ok: "blk_ok L s bp"
    and below: "blk_end L s p \<le> bp" and above: "\<forall>b\<in>set bs. blk_end L s bp \<le> b"
    by (simp_all add: free_at_def)
  define q where "q = s_ptr s p"
  from free_at_fwd [OF fa fw] obtain bs' where bs: "bs = q # bs'"
    and cq: "chain (s_ptr s) (s_ptr s q) bs' (base L)" and sq: "sep L s (blk_end L s q) bs'"
    and qn: "q \<noteq> bp" "q \<noteq> p" and qok: "blk_ok L s q" and qb: "q \<noteq> base L"
    unfolding q_def by blast
  define s' where "s' = free_link L bp p s"
  define s1 where "s1 = s\<lparr>s_size := (s_size s)(bp := s_size s bp + s_size s q)\<rparr>"
  have ne: "p \<noteq> bp" using f(6) by simp
  have s': "s' = s\<lparr>s_size := (s_size s)(bp := s_size s bp + s_size s q,
                        p := s_size s p + (s_size s bp + s_size s q)),
                    s_ptr := (s_ptr s)(bp := s_ptr s q, p := s_ptr s q), freep := p\<rparr>"
    using fw bw ne by (simp add: s'_def free_link_def Let_def blk_end_def q_def)
  have sz1: "s_size s1 bp = s_size s bp + s_size s q" "s_size s1 p = s_size s p"
    using ne by (simp_all add: s1_def)
  have szp: "s_size s' p = s_size s1 p + s_size s1 bp"
    and br: "brk s' = brk s" "lim s' = lim s" and fp: "freep s' = p"
    using ne by (simp_all add: s' s1_def)
  have nin: "bp \<notin> set pre" "p \<notin> set pre" "bp \<notin> set bs'" "p \<notin> set bs'"
    using f(4) f(5) bs by auto
  have szs: "\<forall>x\<in>set pre. s_size s' x = s_size s x" "\<forall>x\<in>set bs'. s_size s' x = s_size s x"
    using nin by (auto simp: s')
  have "q \<in> set (pre @ p # bs)" using bs by simp
  then have tq: "blk_end L s q \<le> 2 ^ 32 * sizeof_Header L" by (rule t(2))
  have fwq: "blk_end L s bp = q" using fw by (simp add: q_def)
  have bpos: "0 < bp" using f(10) by simp
  note m1 = blk_end_merge [OF fwq sz1(1) tq bpos f(1)]
  have bw1: "blk_end L s1 p = bp" using bw by (simp add: blk_end_def sz1)
  have t1: "blk_end L s1 bp \<le> 2 ^ 32 * sizeof_Header L" using m1(1) tq by simp
  note m = blk_end_merge [OF bw1 szp t1 b(3) f(1)]
  have e: "blk_end L s' p = blk_end L s q" using m(1) m1(1) by simp
  have "chain (s_ptr s') (base L) pre p" using f(2) nin by (simp add: s' chain_upd)
  moreover have "chain (s_ptr s') (s_ptr s q) bs' (base L)" using cq nin by (simp add: s' chain_upd)
  moreover have "s_ptr s' p = s_ptr s q" by (simp add: s')
  ultimately have ch: "chain (s_ptr s') (base L) (pre @ p # bs') (base L)"
    by (auto simp: chain_append)
  have hd: "hd (pre @ p # bs) = base L" using w by (simp add: wfl_def)
  then have hd': "hd (pre @ p # bs') = base L" by (cases pre) auto
  have cyc: "cyclic s' (pre @ p # bs')"
    using ch hd' f(4) bs by (auto simp: cyclic_def)
  have "sep L s' (blk_end L s q) bs'" using sq szs(2) by (rule sep_congI)
  then have "sep L s' (blk_end L s' p) bs'" by (simp add: e)
  moreover have "sep L s' 0 (pre @ [p])" using f(8) szs(1) by (rule sep_snocI)
  ultimately have sp: "sep L s' 0 (pre @ p # bs')"
    using sep_cons_append [of L s' 0 pre p bs'] by simp
  have "s_size s' p \<noteq> 0" using m(2) b(2) by (simp add: sz1 blk_ok_def)
  then have "blk_ok L s' p" using qok b(2) e by (simp add: blk_ok_def br)
  moreover have "\<And>x. x \<in> set (pre @ bs') \<Longrightarrow> x \<noteq> base L \<Longrightarrow> blk_ok L s' x"
  proof -
    fix x assume x: "x \<in> set (pre @ bs')" "x \<noteq> base L"
    then have "x \<in> set (pre @ p # bs)" "s_size s' x = s_size s x" using szs bs by auto
    then show "blk_ok L s' x" using wfl_blk_ok [OF w _ x(2)] by (simp add: blk_ok_def blk_end_def br)
  qed
  ultimately have oks: "\<forall>x\<in>set (pre @ p # bs'). x \<noteq> base L \<longrightarrow> blk_ok L s' x" by auto
  have zb: "s_size s' (base L) = 0" using w b(1) f(10) by (simp add: s' wfl_def)
  show "wfl L (free_link L bp p s) (pre @ p # tl bs)"
    using w cyc hd' sp oks zb
    unfolding s'_def [symmetric] bs
    by (simp add: wfl_def arena_ok_def br fp)
  have "region L s' pre = region L s pre" using szs(1) by (intro region_cong) simp
  moreover have "region L s' bs' = region L s bs'" using szs(2) by (intro region_cong) simp
  moreover have "blk L s' p = blk L s1 p \<union> blk L s1 bp" using bw1 m(1) by (rule blk_join)
  moreover have "blk L s1 bp = blk L s bp \<union> blk L s q" using fwq m1(1) by (rule blk_join)
  moreover have "blk L s1 p = blk L s p" using sz1(2) by (rule blk_cong)
  ultimately show "region L (free_link L bp p s) (pre @ p # tl bs) = region L s (pre @ p # bs) \<union> blk L s bp"
    unfolding s'_def [symmetric] bs by auto
  have "s_size s bp \<le> s_size s1 bp" using m1(3) .
  also have "\<dots> \<le> s_size s' p" using m(4) .
  finally show "\<exists>x\<in>set (pre @ p # tl bs). s_size s bp \<le> s_size (free_link L bp p s) x"
    unfolding s'_def [symmetric] by auto
qed

lemma free_link_A':
  assumes fa: "free_at L s pre p bs bp"
    and nf: "blk_end L s bp \<noteq> s_ptr s p" and nb: "blk_end L s p \<noteq> bp"
  shows "region L (free_link L bp p s) (pre @ p # bp # bs) = region L s (pre @ p # bs) \<union> blk L s bp"
    "\<exists>x\<in>set (pre @ p # bp # bs). s_size s bp \<le> s_size (free_link L bp p s) x"
proof -
  note f = free_at_facts [OF fa]
  have ne: "p \<noteq> bp" using f(6) by simp
  have s': "free_link L bp p s = s\<lparr>s_ptr := (s_ptr s)(bp := s_ptr s p, p := bp), freep := p\<rparr>"
    using nf nb ne by (simp add: free_link_def Let_def blk_end_def)
  show "region L (free_link L bp p s) (pre @ p # bp # bs) = region L s (pre @ p # bs) \<union> blk L s bp"
    by (auto simp: s' region_def blk_def blk_end_def)
  show "\<exists>x\<in>set (pre @ p # bp # bs). s_size s bp \<le> s_size (free_link L bp p s) x"
    by (auto simp: s')
qed

lemma free_link_frame:
  "brk (free_link L bp p s) = brk s" "lim (free_link L bp p s) = lim s"
  "freep (free_link L bp p s) = p"
  by (simp_all add: free_link_def Let_def)

lemma free_link_wfl:
  assumes fa: "free_at L s pre p bs bp"
  shows "\<exists>ns'. wfl L (free_link L bp p s) ns' \<and>
           region L (free_link L bp p s) ns' = region L s (pre @ p # bs) \<union> blk L s bp \<and>
           (\<exists>x\<in>set ns'. s_size s bp \<le> s_size (free_link L bp p s) x)"
proof (cases "blk_end L s bp = s_ptr s p")
  case fw: True
  show ?thesis
  proof (cases "blk_end L s p = bp")
    case True
    from free_link_D [OF fa fw True] show ?thesis by blast
  next
    case False
    from free_link_B [OF fa fw False] show ?thesis by blast
  qed
next
  case nf: False
  show ?thesis
  proof (cases "blk_end L s p = bp")
    case True
    from free_link_C [OF fa nf True] show ?thesis by blast
  next
    case False
    from free_link_A [OF fa nf False] free_link_A' [OF fa nf False] show ?thesis by blast
  qed
qed

text \<open>Successors in a chain.\<close>

lemma chain_next: "chain f a (us @ x # y # vs) c \<Longrightarrow> f x = y"
  by (auto simp: chain_append)

lemma chain_last: "chain f a (us @ [x]) c \<Longrightarrow> f x = c"
  by (auto simp: chain_append)

lemma sep_pair: "sep L s lo (us @ a # vs) \<Longrightarrow> b \<in> set vs \<Longrightarrow> blk_end L s a < b"
  using sep_cons_append [of L s lo us a vs] by (auto dest: sep_lower)

lemma sep_sorted: "sep L s lo (us @ a # vs) \<Longrightarrow> b \<in> set vs \<Longrightarrow> a < b"
  using sep_pair [of L s lo us a vs b] blk_end_ge [of a L s] by simp

lemma free_at_scan_unique:
  assumes fa: "free_at L s pre p bs bp" and x: "x \<in> set (pre @ p # bs)"
    and st: "scan_stop s bp x"
  shows "x = p"
proof (rule ccontr)
  assume xp: "x \<noteq> p"
  note f = free_at_facts [OF fa]
  from fa have w: "wfl L s (pre @ p # bs)" and above: "\<forall>b\<in>set bs. blk_end L s bp \<le> b"
    by (simp_all add: free_at_def)
  have hd: "hd (pre @ p # bs) = base L" using w by (simp add: wfl_def)
  have ch: "chain (s_ptr s) (base L) (pre @ p # bs) (base L)"
    using w hd by (simp add: wfl_def cyclic_def)
  have sp: "sep L s 0 (pre @ p # bs)" using w by (simp add: wfl_def)
  from x xp consider "x \<in> set pre" | "x \<in> set bs" by auto
  then show False
  proof cases
    case 1
    then obtain us vs where pre: "pre = us @ x # vs" by (auto simp: in_set_conv_decomp)
    obtain y ws where vs: "vs @ p # bs = y # ws" by (cases vs) auto
    have l: "pre @ p # bs = us @ x # y # ws" using pre vs by simp
    have "s_ptr s x = y" using ch unfolding l by (rule chain_next)
    moreover have "x < y" using sp unfolding l by (rule sep_sorted) simp
    moreover have "y \<in> set (vs @ [p])" using vs by (cases vs) auto
    then have "y \<le> p"
    proof (cases "y = p")
      case True
      then show ?thesis by simp
    next
      case False
      with \<open>y \<in> set (vs @ [p])\<close> have "y \<in> set pre" using pre by auto
      from sep_snoc_lt [OF f(8) this] blk_end_ge [of y L s] show ?thesis by linarith
    qed
    ultimately show False using st f(6) by (auto simp: scan_stop_def)
  next
    case 2
    then obtain us vs where bs: "bs = us @ x # vs" by (auto simp: in_set_conv_decomp)
    have bx: "bp < x" using above 2 f(7) by force
    have l: "pre @ p # bs = (pre @ p # us) @ x # vs" using bs by simp
    show False
    proof (cases vs)
      case Nil
      have "chain (s_ptr s) (base L) ((pre @ p # us) @ [x]) (base L)" using ch l Nil by simp
      then have "s_ptr s x = base L" by (rule chain_last)
      with st bx f(10) show False by (auto simp: scan_stop_def)
    next
      case (Cons y ws)
      have l': "pre @ p # bs = (pre @ p # us) @ x # y # ws" using l Cons by simp
      have "s_ptr s x = y" using ch unfolding l' by (rule chain_next)
      moreover have "x < y" using sp unfolding l' by (rule sep_sorted) simp
      ultimately show False using st bx by (auto simp: scan_stop_def)
    qed
  qed
qed

lemma free_at_scan:
  assumes fa: "free_at L s pre p bs bp"
  shows "free_scan s bp (freep s) = Some p"
proof -
  note f = free_at_facts [OF fa]
  from fa have w: "wfl L s (pre @ p # bs)" by (simp add: free_at_def)
  have cyc: "cyclic s (pre @ p # bs)" and fp: "freep s \<in> set (pre @ p # bs)"
    using w by (simp_all add: wfl_def)
  have "scan_stop s bp p"
  proof (cases bs)
    case Nil
    with f(11) f(6) f(2) have "s_ptr s p = base L" by simp
    moreover have "base L \<le> p"
    proof (cases pre)
      case Nil
      with f(2) show ?thesis by simp
    next
      case (Cons a as)
      with f(2) have "base L \<in> set pre" by simp
      from sep_snoc_lt [OF f(8) this] blk_end_ge [of "base L" L s] show ?thesis by linarith
    qed
    ultimately show ?thesis using f(6) by (simp add: scan_stop_def)
  next
    case (Cons q bs')
    then have "s_ptr s p = q" using f(11) by simp
    moreover have "blk_end L s bp \<le> q" using fa Cons by (simp add: free_at_def)
    then have "bp < q" using f(7) by simp
    ultimately show ?thesis using f(6) by (simp add: scan_stop_def)
  qed
  then have "\<exists>x\<in>set (pre @ p # bs). scan_stop s bp x" by auto
  from scan_cyclic [OF cyc fp this] obtain r where
    r: "free_scan s bp (freep s) = Some r" "scan_stop s bp r" "r \<in> set (pre @ p # bs)"
    by auto
  from free_at_scan_unique [OF fa r(3) r(2)] r(1) show ?thesis by simp
qed

lemma sep_no_adjacent: "sep L s lo ns \<Longrightarrow> no_adjacent L s ns"
  unfolding no_adjacent_def
proof (intro ballI impI)
  fix a b assume s: "sep L s lo ns" and a: "a \<in> set ns" and b: "b \<in> set ns" and ab: "a \<noteq> b"
  from a obtain us vs where ns: "ns = us @ a # vs" by (auto simp: in_set_conv_decomp)
  from b ab ns consider "b \<in> set us" | "b \<in> set vs" by auto
  then show "blk_end L s a \<noteq> b"
  proof cases
    case 1
    then obtain us1 us2 where us: "us = us1 @ b # us2" by (auto simp: in_set_conv_decomp)
    have "sep L s lo (us1 @ b # (us2 @ a # vs))" using s ns us by simp
    then have "b < a" by (rule sep_sorted) simp
    with blk_end_ge [of a L s] show ?thesis by simp
  next
    case 2
    with s ns have "blk_end L s a < b" by (auto intro: sep_pair)
    then show ?thesis by simp
  qed
qed

lemma heap_inv_no_adjacent: "heap_inv L s xs \<Longrightarrow> no_adjacent L s (base L # xs)"
  by (rule sep_no_adjacent [where lo = 0]) (simp add: heap_inv_def)

lemma chunk_split:
  assumes w: "heap_inv L s xs" and c: "chunk L s xs bp"
  obtains pre p bs where "base L # xs = pre @ p # bs" "free_at L s pre p bs bp"
proof -
  define ns where "ns = base L # xs"
  have wl: "wfl L s ns" using w by (simp add: heap_inv_wfl ns_def)
  have H: "0 < sizeof_Header L" using w by (simp add: heap_inv_def layout_ok_def)
  have ok: "blk_ok L s bp" using c by (simp add: chunk_def)
  have e: "bp < blk_end L s bp" using ok H by (simp add: blk_ok_def blk_end_gt)
  have bb: "base L < bp" using ok H by (simp add: blk_ok_def)
  have zb: "blk_end L s (base L) = base L" using w by (simp add: heap_inv_def blk_end_def)
  have side: "\<And>x. x \<in> set ns \<Longrightarrow> blk_end L s bp \<le> x \<or> blk_end L s x \<le> bp"
    using c bb zb by (auto simp: chunk_def ns_def)
  have sp: "sep L s 0 ns" using wl by (simp add: wfl_def)
  define P where "P = (\<lambda>x. x < bp)"
  define tw where "tw = takeWhile P ns"
  define bs where "bs = dropWhile P ns"
  have tw_ne: "tw \<noteq> []" using bb by (simp add: tw_def ns_def P_def)
  then obtain pre p where tw: "tw = pre @ [p]" by (metis rev_exhaust)
  have ns: "ns = pre @ p # bs" using tw takeWhile_dropWhile_id [of P ns] by (simp add: tw_def bs_def)
  have "p \<in> set (takeWhile P ns)" using tw by (simp add: tw_def)
  then have pb: "p < bp" using set_takeWhileD [of p P ns] by (simp add: P_def)
  have "p \<in> set ns" using ns by simp
  from side [OF this] pb e have below: "blk_end L s p \<le> bp" by linarith
  have above: "\<forall>b\<in>set bs. blk_end L s bp \<le> b"
  proof
    fix b assume b: "b \<in> set bs"
    have "bp \<le> b"
    proof (cases bs)
      case Nil
      with b show ?thesis by simp
    next
      case (Cons q bs')
      have "dropWhile P ns \<noteq> []" using Cons by (simp add: bs_def)
      from hd_dropWhile [OF this] have "\<not> P q" using Cons by (simp add: bs_def)
      then have q: "bp \<le> q" by (simp add: P_def)
      show ?thesis
      proof (cases "b = q")
        case True
        with q show ?thesis by simp
      next
        case False
        with b Cons have "b \<in> set bs'" by simp
        moreover have "sep L s 0 ((pre @ [p]) @ q # bs')" using sp ns Cons by simp
        ultimately have "q < b" by (rule_tac sep_sorted)
        with q show ?thesis by simp
      qed
    qed
    moreover have "b \<in> set ns" using b ns by simp
    from side [OF this] have "blk_end L s bp \<le> b \<or> blk_end L s b \<le> bp" .
    moreover have "b \<le> blk_end L s b" by (rule blk_end_ge)
    moreover have "bp \<noteq> blk_end L s b \<or> True" by simp
    ultimately show "blk_end L s bp \<le> b"
    proof -
      have "blk_end L s b \<le> bp \<Longrightarrow> b = bp" using \<open>bp \<le> b\<close> \<open>b \<le> blk_end L s b\<close> by simp
      moreover have "b \<noteq> bp"
      proof
        assume "b = bp"
        with \<open>b \<in> set ns\<close> side [of bp] e show False by auto
      qed
      ultimately show ?thesis using \<open>blk_end L s bp \<le> b \<or> blk_end L s b \<le> bp\<close> by blast
    qed
  qed
  have "free_at L s pre p bs bp" using wl ok below above by (simp add: free_at_def ns)
  moreover have "base L # xs = pre @ p # bs" using ns by (simp add: ns_def)
  ultimately show ?thesis by (intro that)
qed

lemma free_heap_inv:
  assumes w: "heap_inv L s xs" and c: "chunk L s xs bp"
  shows "\<exists>s' xs'. free L (bp + sizeof_Header L) s = Some s' \<and> heap_inv L s' xs' \<and>
           region L s' (base L # xs') = region L s (base L # xs) \<union> blk L s bp \<and>
           (\<exists>x\<in>set xs'. s_size s bp \<le> s_size s' x) \<and>
           brk s' = brk s \<and> lim s' = lim s"
proof -
  from chunk_split [OF w c] obtain pre p bs where
    ns: "base L # xs = pre @ p # bs" and fa: "free_at L s pre p bs bp" by blast
  have fr: "free L (bp + sizeof_Header L) s = Some (free_link L bp p s)"
    using free_at_scan [OF fa] by (simp add: free_def)
  from free_link_wfl [OF fa] obtain ns' where
    ns': "wfl L (free_link L bp p s) ns'"
      "region L (free_link L bp p s) ns' = region L s (pre @ p # bs) \<union> blk L s bp"
      "\<exists>x\<in>set ns'. s_size s bp \<le> s_size (free_link L bp p s) x" by blast
  have hd: "ns' = base L # tl ns'" using ns'(1) by (cases ns') (auto simp: wfl_def cyclic_def)
  have w': "heap_inv L (free_link L bp p s) (tl ns')" using ns'(1) by (rule wfl_heap_inv)
  from ns'(3) obtain x where x: "x \<in> set ns'" "s_size s bp \<le> s_size (free_link L bp p s) x" by blast
  have "s_size s bp \<noteq> 0" using c by (simp add: chunk_def blk_ok_def)
  with x(2) have "s_size (free_link L bp p s) x \<noteq> 0" by auto
  then have "x \<noteq> base L" using ns'(1) by (auto simp: wfl_def)
  with x(1) hd have "x \<in> set (tl ns')" by (metis set_ConsD)
  with x(2) have big: "\<exists>x\<in>set (tl ns'). s_size s bp \<le> s_size (free_link L bp p s) x" by blast
  have "region L (free_link L bp p s) (base L # tl ns') = region L s (base L # xs) \<union> blk L s bp"
    using ns'(2) hd ns by simp
  with fr w' big show ?thesis
    by (intro exI [of _ "free_link L bp p s"] exI [of _ "tl ns'"]) (simp add: free_link_frame)
qed

section \<open>malloc keeps the heap well formed\<close>

lemma blk_disjoint_region:
  assumes "sep L s lo (us @ a # vs)"
  shows "blk L s a \<inter> region L s (us @ vs) = {}"
proof -
  have "blk L s a \<inter> blk L s x = {}" if "x \<in> set (us @ vs)" for x
  proof -
    from that consider "x \<in> set us" | "x \<in> set vs" by auto
    then show ?thesis
    proof cases
      case 1
      then obtain u1 u2 where us: "us = u1 @ x # u2" by (auto simp: in_set_conv_decomp)
      have "sep L s lo (u1 @ x # (u2 @ a # vs))" using assms us by simp
      then have "blk_end L s x < a" by (rule sep_pair) simp
      then show ?thesis by (auto simp: blk_def)
    next
      case 2
      with assms have "blk_end L s a < x" by (rule sep_pair)
      then show ?thesis by (auto simp: blk_def)
    qed
  qed
  then show ?thesis by (auto simp: region_def)
qed

lemma take_block_ptr: "fst (take_block L n prev r s) = taken L n r s + sizeof_Header L"
  by (simp add: take_block_def taken_def Let_def)

lemma take_block_exact:
  assumes w: "wfl L s (pre @ prev # r # bs)" and ex: "s_size s r = n"
  shows "wfl L (snd (take_block L n prev r s)) (pre @ prev # bs)"
    "region L s (pre @ prev # r # bs) = region L (snd (take_block L n prev r s)) (pre @ prev # bs) \<union> blk L s r"
    "blk L s r \<inter> region L (snd (take_block L n prev r s)) (pre @ prev # bs) = {}"
proof -
  define s' where "s' = snd (take_block L n prev r s)"
  have s': "s' = s\<lparr>s_ptr := (s_ptr s)(prev := s_ptr s r), freep := prev\<rparr>"
    using ex by (simp add: s'_def take_block_def)
  have sz: "s_size s' = s_size s" and br: "brk s' = brk s" "lim s' = lim s" and fp: "freep s' = prev"
    by (simp_all add: s')
  have hd: "hd (pre @ prev # r # bs) = base L" using w by (simp add: wfl_def)
  then have hd': "hd (pre @ prev # bs) = base L" by (cases pre) auto
  have d: "distinct (pre @ prev # r # bs)" using w by (simp add: wfl_def cyclic_def)
  have "chain (s_ptr s) (base L) (pre @ prev # r # bs) (base L)" using w hd by (simp add: wfl_def cyclic_def)
  then have c: "chain (s_ptr s) (base L) pre prev" "chain (s_ptr s) (s_ptr s r) bs (base L)"
    by (auto simp: chain_append)
  have "chain (s_ptr s') (base L) pre prev" using c(1) d by (simp add: s' chain_upd)
  moreover have "chain (s_ptr s') (s_ptr s r) bs (base L)" using c(2) d by (simp add: s' chain_upd)
  moreover have "s_ptr s' prev = s_ptr s r" by (simp add: s')
  ultimately have "chain (s_ptr s') (base L) (pre @ prev # bs) (base L)" by (auto simp: chain_append)
  then have cyc: "cyclic s' (pre @ prev # bs)" using d hd' by (simp add: cyclic_def)
  have sp: "sep L s 0 (pre @ prev # r # bs)" using w by (simp add: wfl_def)
  then have sp1: "sep L s 0 (pre @ [prev])" and sp2: "sep L s (blk_end L s prev) (r # bs)"
    using sep_cons_append [of L s 0 pre prev "r # bs"] by simp_all
  have "blk_end L s prev \<le> blk_end L s r" "sep L s (blk_end L s r) bs"
    using sp2 blk_end_ge [of r L s] by simp_all
  then have "sep L s (blk_end L s prev) bs" by (rule sep_mono)
  with sp1 have "sep L s 0 (pre @ prev # bs)" using sep_cons_append [of L s 0 pre prev bs] by simp
  then have sp': "sep L s' 0 (pre @ prev # bs)" by (rule sep_congI) (simp add: sz)
  have oks: "\<forall>x\<in>set (pre @ prev # bs). x \<noteq> base L \<longrightarrow> blk_ok L s' x"
    using w by (auto simp: wfl_def blk_ok_def blk_end_def sz br)
  show "wfl L (snd (take_block L n prev r s)) (pre @ prev # bs)"
    using w cyc hd' sp' oks unfolding s'_def [symmetric]
    by (simp add: wfl_def arena_ok_def br sz fp)
  have rg: "region L s' (pre @ prev # bs) = region L s (pre @ prev # bs)"
    by (intro region_cong) (simp add: sz)
  show "region L s (pre @ prev # r # bs) = region L (snd (take_block L n prev r s)) (pre @ prev # bs) \<union> blk L s r"
    unfolding s'_def [symmetric] rg by auto
  have "sep L s 0 ((pre @ [prev]) @ r # bs)" using sp by simp
  from blk_disjoint_region [OF this]
  show "blk L s r \<inter> region L (snd (take_block L n prev r s)) (pre @ prev # bs) = {}"
    unfolding s'_def [symmetric] rg by simp
qed

lemma wfl_fit_not_base:
  assumes w: "wfl L s ns" and n: "n \<noteq> 0" and fit: "n \<le> s_size s r"
  shows "r \<noteq> base L"
proof
  assume "r = base L"
  then have "s_size s r = 0" using w by (simp add: wfl_def)
  with fit n show False by simp
qed

lemma take_block_split:
  assumes w: "wfl L s (us @ r # bs)" and fit: "n \<le> s_size s r" and nex: "s_size s r \<noteq> n"
    and n: "n \<noteq> 0" and prev: "prev \<in> set (us @ r # bs)"
  defines "s' \<equiv> snd (take_block L n prev r s)" and "r' \<equiv> taken L n r s"
  shows "wfl L s' (us @ r # bs)"
    "region L s (us @ r # bs) = region L s' (us @ r # bs) \<union> blk L s' r'"
    "blk L s' r' \<inter> region L s' (us @ r # bs) = {}"
    "s_size s' r' = n" "r < r'" "blk_end L s' r' = blk_end L s r" "sizeof_Header L dvd r'"
proof -
  have H: "0 < sizeof_Header L" using w by (simp add: wfl_def layout_ok_def)
  have rb: "r \<noteq> base L" using w n fit by (rule wfl_fit_not_base)
  then have rok: "blk_ok L s r" by (intro wfl_blk_ok [OF w]) auto
  define d where "d = s_size s r - n"
  from word_diff_pos [OF fit nex]
  have dpos: "0 < unat d" and dsub: "unat d = unat (s_size s r) - unat n"
    and lt: "unat n < unat (s_size s r)" by (simp_all add: d_def)
  have r': "r' = r + unat d * sizeof_Header L" using nex by (simp add: r'_def taken_def d_def)
  show rr: "r < r'" using dpos H by (simp add: r')
  have "(unat (s_size s r) - unat n) * sizeof_Header L + unat n * sizeof_Header L =
     unat (s_size s r) * sizeof_Header L" using lt by (simp add: algebra_simps flip: distrib_right)
  then have end': "r' + unat n * sizeof_Header L = blk_end L s r"
    by (simp add: r' dsub blk_end_def)
  have s': "s' = s\<lparr>s_size := (s_size s)(r := d, r' := n), freep := prev\<rparr>"
    using nex by (simp add: s'_def take_block_def Let_def d_def r' )
  have npos: "0 < unat n" using n by (simp add: unat_gt_0)
  have r'lt: "r' < blk_end L s r" using end' npos H by (metis less_add_same_cancel1 mult_pos_pos)
  have sp: "sep L s 0 (us @ r # bs)" using w by (simp add: wfl_def)
  have "r' \<noteq> x" if "x \<in> set (us @ r # bs)" for x
  proof -
    from that consider "x \<in> set us" | "x = r" | "x \<in> set bs" by auto
    then show ?thesis
    proof cases
      case 1
      then obtain u1 u2 where "us = u1 @ x # u2" by (auto simp: in_set_conv_decomp)
      then have "sep L s 0 (u1 @ x # (u2 @ r # bs))" using sp by simp
      then have "x < r" by (rule sep_sorted) simp
      with rr show ?thesis by simp
    next
      case 2
      with rr show ?thesis by simp
    next
      case 3
      with sp have "blk_end L s r < x" by (rule sep_pair)
      with r'lt show ?thesis by simp
    qed
  qed
  then have nin: "r' \<notin> set (us @ r # bs)" by blast
  have d': "distinct (us @ r # bs)" using w by (simp add: wfl_def cyclic_def)
  have szs: "\<forall>x\<in>set us. s_size s' x = s_size s x" "\<forall>x\<in>set bs. s_size s' x = s_size s x"
    "s_size s' r = d" using nin d' by (auto simp: s')
  show szr': "s_size s' r' = n" by (simp add: s')
  show e': "blk_end L s' r' = blk_end L s r" using end' by (simp add: blk_end_def szr')
  have er: "blk_end L s' r = r'" by (simp add: blk_end_def szs r')
  show "sizeof_Header L dvd r'" using rok by (simp add: r' blk_ok_def)
  have br: "brk s' = brk s" "lim s' = lim s" and fp: "freep s' = prev" and pt: "s_ptr s' = s_ptr s"
    by (simp_all add: s')
  have "cyclic s (us @ r # bs)" using w by (simp add: wfl_def)
  then have cyc: "cyclic s' (us @ r # bs)" by (simp add: cyclic_def pt)
  have sp1: "sep L s 0 (us @ [r])" and sp2: "sep L s (blk_end L s r) bs"
    using sp sep_cons_append [of L s 0 us r bs] by simp_all
  have "sep L s' 0 (us @ [r])" using sp1 szs(1) by (rule sep_snocI)
  moreover have "sep L s (blk_end L s' r) bs" using sp2 r'lt er by (intro sep_mono [OF _ sp2]) simp
  then have "sep L s' (blk_end L s' r) bs" using szs(2) by (rule sep_congI)
  ultimately have sp': "sep L s' 0 (us @ r # bs)" using sep_cons_append [of L s' 0 us r bs] by simp
  have "blk_ok L s' r" using rok dpos r'lt er by (simp add: blk_ok_def br szs unat_gt_0)
  moreover have "\<And>x. x \<in> set (us @ bs) \<Longrightarrow> x \<noteq> base L \<Longrightarrow> blk_ok L s' x"
  proof -
    fix x assume x: "x \<in> set (us @ bs)" "x \<noteq> base L"
    then have "x \<in> set (us @ r # bs)" "s_size s' x = s_size s x" using szs by auto
    then show "blk_ok L s' x" using wfl_blk_ok [OF w _ x(2)] by (simp add: blk_ok_def blk_end_def br)
  qed
  ultimately have oks: "\<forall>x\<in>set (us @ r # bs). x \<noteq> base L \<longrightarrow> blk_ok L s' x" by auto
  have "hd (us @ r # bs) \<in> set (us @ r # bs)" by (rule hd_in_set) simp
  then have "base L \<in> set (us @ r # bs)" using w by (simp add: wfl_def)
  with nin have "r' \<noteq> base L" by blast
  then have zb: "s_size s' (base L) = 0" using w rb by (simp add: s' wfl_def)
  show "wfl L s' (us @ r # bs)"
    using w cyc sp' oks zb prev by (simp add: wfl_def arena_ok_def br fp)
  have "region L s' us = region L s us" using szs(1) by (intro region_cong) simp
  moreover have "region L s' bs = region L s bs" using szs(2) by (intro region_cong) simp
  moreover have j: "blk L s r = blk L s' r \<union> blk L s' r'" "blk L s' r \<inter> blk L s' r' = {}"
    using rr r'lt er e' by (auto simp: blk_def)
  ultimately show "region L s (us @ r # bs) = region L s' (us @ r # bs) \<union> blk L s' r'" by auto
  from blk_disjoint_region [OF sp] have "blk L s r \<inter> region L s (us @ bs) = {}" .
  then have "blk L s' r' \<inter> region L s' (us @ bs) = {}"
    using j(1) \<open>region L s' us = region L s us\<close> \<open>region L s' bs = region L s bs\<close> by auto
  with j(2) show "blk L s' r' \<inter> region L s' (us @ r # bs) = {}" by auto
qed

lemma take_block_frame:
  "brk (snd (take_block L n prev r s)) = brk s" "lim (snd (take_block L n prev r s)) = lim s"
  "freep (snd (take_block L n prev r s)) = prev"
  by (simp_all add: take_block_def Let_def)

lemma sep_end_notin:
  assumes "sep L s lo (us @ r # bs)" and "s_size s r \<noteq> 0" and "0 < sizeof_Header L"
  shows "blk_end L s r \<notin> set (us @ r # bs)"
proof
  assume "blk_end L s r \<in> set (us @ r # bs)"
  then consider "blk_end L s r \<in> set us" | "blk_end L s r = r" | "blk_end L s r \<in> set bs" by auto
  then show False
  proof cases
    case 1
    then obtain u1 u2 where "us = u1 @ blk_end L s r # u2" by (auto simp: in_set_conv_decomp)
    then have "sep L s lo (u1 @ blk_end L s r # (u2 @ r # bs))" using assms(1) by simp
    then have "blk_end L s r < r" by (rule sep_sorted) simp
    with blk_end_ge [of r L s] show False by simp
  next
    case 2
    with blk_end_gt [OF assms(3) assms(2)] show False by simp
  next
    case 3
    with assms(1) have "blk_end L s r < blk_end L s r" by (rule sep_pair)
    then show False by simp
  qed
qed

lemma take_block_wfl:
  assumes w: "wfl L s (pre @ prev # r # bs)" and fit: "n \<le> s_size s r" and n: "n \<noteq> 0"
  defines "s' \<equiv> snd (take_block L n prev r s)" and "hdr \<equiv> taken L n r s"
  shows "\<exists>ns'. wfl L s' ns' \<and> region L s (pre @ prev # r # bs) = region L s' ns' \<union> blk L s' hdr \<and>
           blk L s' hdr \<inter> region L s' ns' = {} \<and> set ns' \<subseteq> set (pre @ prev # r # bs)"
    "s_size s' hdr = n" "blk_ok L s' hdr" "blk_end L s' hdr \<notin> set (pre @ prev # r # bs)"
proof -
  have H: "0 < sizeof_Header L" using w by (simp add: wfl_def layout_ok_def)
  have rb: "r \<noteq> base L" using w n fit by (rule wfl_fit_not_base)
  then have rok: "blk_ok L s r" by (intro wfl_blk_ok [OF w]) auto
  show "\<exists>ns'. wfl L s' ns' \<and> region L s (pre @ prev # r # bs) = region L s' ns' \<union> blk L s' hdr \<and>
           blk L s' hdr \<inter> region L s' ns' = {} \<and> set ns' \<subseteq> set (pre @ prev # r # bs)"
  proof (cases "s_size s r = n")
    case True
    then have "hdr = r" "s_size s' = s_size s" by (simp_all add: hdr_def taken_def s'_def take_block_def)
    then have "blk L s' hdr = blk L s r" by (simp add: blk_def blk_end_def)
    with take_block_exact [OF w True] show ?thesis
      unfolding s'_def by (intro exI [of _ "pre @ prev # bs"]) auto
  next
    case False
    have w': "wfl L s ((pre @ [prev]) @ r # bs)" using w by simp
    from take_block_split [OF w' fit False n, of prev] show ?thesis
      unfolding s'_def hdr_def by (intro exI [of _ "pre @ prev # r # bs"]) auto
  qed
  show sz: "s_size s' hdr = n"
  proof (cases "s_size s r = n")
    case True
    then show ?thesis by (simp add: hdr_def taken_def s'_def take_block_def)
  next
    case False
    have w': "wfl L s ((pre @ [prev]) @ r # bs)" using w by simp
    from take_block_split(4) [OF w' fit False n, of prev] show ?thesis
      unfolding s'_def hdr_def by simp
  qed
  show "blk_ok L s' hdr"
  proof (cases "s_size s r = n")
    case True
    then have "hdr = r" "s_size s' = s_size s" by (simp_all add: hdr_def taken_def s'_def take_block_def)
    with rok show ?thesis by (simp add: blk_ok_def blk_end_def s'_def take_block_frame)
  next
    case False
    have w': "wfl L s ((pre @ [prev]) @ r # bs)" using w by simp
    note t = take_block_split [OF w' fit False n, of prev]
    have "r < hdr" "blk_end L s' hdr = blk_end L s r" "sizeof_Header L dvd hdr"
      using t(5-7) unfolding s'_def hdr_def by simp_all
    with rok sz n show ?thesis by (simp add: blk_ok_def s'_def take_block_frame)
  qed
  have "sep L s 0 ((pre @ [prev]) @ r # bs)" using w by (simp add: wfl_def)
  moreover have "s_size s r \<noteq> 0" using rok by (simp add: blk_ok_def)
  ultimately have "blk_end L s r \<notin> set ((pre @ [prev]) @ r # bs)" using H by (rule sep_end_notin)
  moreover have "blk_end L s' hdr = blk_end L s r"
  proof (cases "s_size s r = n")
    case True
    then have "hdr = r" "s_size s' = s_size s" by (simp_all add: hdr_def taken_def s'_def take_block_def)
    then show ?thesis by (simp add: blk_end_def)
  next
    case False
    have w': "wfl L s ((pre @ [prev]) @ r # bs)" using w by simp
    from take_block_split(6) [OF w' fit False n, of prev] show ?thesis
      unfolding s'_def hdr_def by simp
  qed
  ultimately show "blk_end L s' hdr \<notin> set (pre @ prev # r # bs)" by simp
qed

lemma heap_inv_below_brk:
  assumes w: "heap_inv L s xs" and x: "x \<in> set (base L # xs)"
  shows "blk_end L s x \<le> brk s" "x < brk s"
proof -
  have H: "0 < sizeof_Header L" using w by (simp add: heap_inv_def layout_ok_def)
  have b: "base L + sizeof_Header L \<le> brk s" using w by (simp add: heap_inv_def arena_ok_def)
  show "blk_end L s x \<le> brk s"
  proof (cases "x = base L")
    case True
    then show ?thesis using w b by (simp add: heap_inv_def blk_end_def)
  next
    case False
    with x w show ?thesis by (simp add: heap_inv_def blk_ok_def)
  qed
  show "x < brk s"
  proof (cases "x = base L")
    case True
    then show ?thesis using b H by simp
  next
    case False
    with x w have "blk_ok L s x" by (simp add: heap_inv_def)
    then show ?thesis using H blk_end_gt [of L s x] by (simp add: blk_ok_def)
  qed
qed

lemma grow_units_ge: "nu \<le> grow_units nu" "grow_units nu \<noteq> 0" "4096 \<le> unat (grow_units nu)"
  by (auto simp: grow_units_def word_less_nat_alt word_le_nat_alt unat_eq_0 [symmetric] simp del: unat_eq_0)

lemma morecore_fail:
  "lim s < brk s + grow_bytes L nu \<Longrightarrow> morecore L nu s = Some (0, s)"
  by (simp add: morecore_def sbrk_def grow_bytes_def grow_units_def Let_def)

lemma morecore_ok:
  assumes w: "heap_inv L s xs" and room: "brk s + grow_bytes L nu \<le> lim s"
    and nowrap: "unat (grow_units nu) * sizeof_Header L < 2 ^ size_t_bits L"
  shows "\<exists>s' xs'. morecore L nu s = Some (freep s', s') \<and> heap_inv L s' xs' \<and>
           region L s' (base L # xs') = region L s (base L # xs) \<union> {brk s ..< brk s'} \<and>
           (\<exists>x\<in>set xs'. nu \<le> s_size s' x) \<and> brk s' = brk s + grow_bytes L nu \<and>
           lim s' = lim s"
proof -
  define n where "n = grow_units nu"
  define H where "H = sizeof_Header L"
  have gb: "grow_bytes L nu = unat n * H" using nowrap by (simp add: grow_bytes_def size_t_of_def n_def H_def)
  define hp where "hp = brk s"
  define s2 where "s2 = s\<lparr>brk := brk s + unat n * H, s_size := (s_size s)(hp := n)\<rparr>"
  have mc: "morecore L nu s = (case free L (hp + H) s2 of None \<Rightarrow> None | Some s3 \<Rightarrow> Some (freep s3, s3))"
    using room gb
    by (simp add: morecore_def sbrk_def Let_def s2_def hp_def n_def H_def grow_units_def grow_bytes_def)
  have Hpos: "0 < H" using w by (simp add: heap_inv_def layout_ok_def H_def)
  have nin: "hp \<notin> set (base L # xs)" using heap_inv_below_brk(2) [OF w] by (auto simp: hp_def)
  have szs: "\<forall>x\<in>set (base L # xs). s_size s2 x = s_size s x" using nin by (auto simp: s2_def)
  have be: "\<forall>x\<in>set (base L # xs). blk_end L s2 x = blk_end L s x" using szs by (simp add: blk_end_def)
  have ar: "arena_ok L s2" using w room gb
    by (simp add: heap_inv_def arena_ok_def s2_def H_def)
  have "cyclic s (base L # xs)" using w by (simp add: heap_inv_def)
  then have cyc: "cyclic s2 (base L # xs)" by (simp add: cyclic_def s2_def)
  have "sep L s 0 (base L # xs)" using w by (simp add: heap_inv_def)
  then have sp: "sep L s2 0 (base L # xs)" using szs by (rule sep_congI)
  have oks: "\<forall>x\<in>set xs. blk_ok L s2 x"
  proof
    fix x assume x: "x \<in> set xs"
    then have "blk_ok L s x" using w by (simp add: heap_inv_def)
    moreover have "s_size s2 x = s_size s x" using szs x by simp
    moreover have "brk s \<le> brk s2" by (simp add: s2_def)
    ultimately show "blk_ok L s2 x" by (simp add: blk_ok_def blk_end_def)
  qed
  have w2: "heap_inv L s2 xs" using w ar cyc sp oks szs by (simp add: heap_inv_def s2_def)
  have e2: "blk_end L s2 hp = brk s2" by (simp add: blk_end_def s2_def hp_def H_def)
  have "blk_ok L s2 hp" using w grow_units_ge(2) [of nu] e2
    by (simp add: blk_ok_def heap_inv_def arena_ok_def hp_def s2_def n_def)
  moreover have "\<forall>x\<in>set xs. blk_end L s2 x \<le> hp"
    using be heap_inv_below_brk(1) [OF w] by (simp add: hp_def)
  ultimately have ch: "chunk L s2 xs hp" by (simp add: chunk_def)
  from free_heap_inv [OF w2 ch] obtain s' xs' where
    f: "free L (hp + sizeof_Header L) s2 = Some s'" "heap_inv L s' xs'"
      "region L s' (base L # xs') = region L s2 (base L # xs) \<union> blk L s2 hp"
      "\<exists>x\<in>set xs'. s_size s2 hp \<le> s_size s' x" "brk s' = brk s2" "lim s' = lim s2" by blast
  have "region L s2 (base L # xs) = region L s (base L # xs)"
    using szs by (intro region_cong) auto
  moreover have "blk L s2 hp = {brk s ..< brk s'}" using e2 f(5) by (simp add: blk_def hp_def)
  ultimately have rg: "region L s' (base L # xs') = region L s (base L # xs) \<union> {brk s ..< brk s'}"
    using f(3) by simp
  have "s_size s2 hp = n" by (simp add: s2_def)
  moreover have "nu \<le> n" using grow_units_ge(1) [of nu] by (simp add: n_def)
  ultimately have big: "\<exists>x\<in>set xs'. nu \<le> s_size s' x" using f(4) by (force intro: order_trans)
  have "morecore L nu s = Some (freep s', s')" using mc f(1) by (simp add: H_def)
  with f(2) rg big f(5) f(6) gb show ?thesis
    by (intro exI [of _ s'] exI [of _ xs']) (simp add: s2_def)
qed

lemma walk_found:
  assumes "chain (s_ptr s) p us r" "\<forall>u\<in>set us. \<not> n \<le> s_size s u \<and> u \<noteq> freep s"
    "n \<le> s_size s r"
  shows "malloc_loop L n prevp p s = Some (take_block L n (last (prevp # us)) r s)"
  using assms
proof (induction us arbitrary: prevp p)
  case Nil
  then show ?case by (subst malloc_loop.simps) simp
next
  case (Cons u us)
  then have "p = u" "\<not> n \<le> s_size s u" "u \<noteq> freep s" by simp_all
  then have "malloc_loop L n prevp p s = malloc_loop L n u (s_ptr s u) s"
    by (subst malloc_loop.simps) simp
  also have "\<dots> = Some (take_block L n (last (u # us)) r s)"
    using Cons.prems by (intro Cons.IH) simp_all
  finally show ?case by simp
qed

lemma walk_grow:
  assumes "chain (s_ptr s) p us (freep s)" "\<forall>u\<in>set us. \<not> n \<le> s_size s u \<and> u \<noteq> freep s"
    "\<not> n \<le> s_size s (freep s)"
  shows "malloc_loop L n prevp p s =
     (case morecore L n s of None \<Rightarrow> None
      | Some (p1, s1) \<Rightarrow> if p1 = 0 then Some (0, s1) else malloc_loop L n p1 (s_ptr s1 p1) s1)"
  using assms
proof (induction us arbitrary: prevp p)
  case Nil
  then show ?case by (subst malloc_loop.simps) simp
next
  case (Cons u us)
  then have "p = u" "\<not> n \<le> s_size s u" "u \<noteq> freep s" by simp_all
  then have "malloc_loop L n prevp p s = malloc_loop L n u (s_ptr s u) s"
    by (subst malloc_loop.simps) simp
  also have "\<dots> = (case morecore L n s of None \<Rightarrow> None
      | Some (p1, s1) \<Rightarrow> if p1 = 0 then Some (0, s1) else malloc_loop L n p1 (s_ptr s1 p1) s1)"
    using Cons.prems by (intro Cons.IH) simp_all
  finally show ?case .
qed

lemma chain_map: "chain f p xs q \<Longrightarrow> xs \<noteq> [] \<Longrightarrow> map f xs = tl xs @ [q]"
proof (induction xs arbitrary: p)
  case Nil
  then show ?case by simp
next
  case (Cons x xs)
  then show ?case by (cases xs) auto
qed

lemma cyclic_inj:
  assumes c: "cyclic s ns" and x: "x \<in> set ns" and y: "y \<in> set ns"
    and e: "s_ptr s x = s_ptr s y"
  shows "x = y"
proof -
  have ne: "ns \<noteq> []" and d: "distinct ns" and ch: "chain (s_ptr s) (hd ns) ns (hd ns)"
    using c by (simp_all add: cyclic_def)
  have "map (s_ptr s) ns = tl ns @ [hd ns]" using ch ne by (rule chain_map)
  also have "\<dots> = rotate1 ns" using ne by (cases ns) simp_all
  finally have "distinct (map (s_ptr s) ns)" using d by simp
  then have "inj_on (s_ptr s) (set ns)" by (simp add: distinct_map)
  with x y e show ?thesis by (auto dest: inj_onD)
qed

lemma pred_decomp:
  assumes c: "cyclic s ns" and r: "r \<in> set ns" "r \<noteq> hd ns" and p: "prev \<in> set ns"
    and e: "s_ptr s prev = r"
  obtains pre bs where "ns = pre @ prev # r # bs"
proof -
  from r(1) obtain us bs where ns: "ns = us @ r # bs" by (auto simp: in_set_conv_decomp)
  with r(2) have "us \<noteq> []" by (cases us) auto
  then obtain pre x where us: "us = pre @ [x]" by (metis rev_exhaust)
  have l: "ns = pre @ x # r # bs" using ns us by simp
  have "chain (s_ptr s) (hd ns) (pre @ x # r # bs) (hd ns)" using c l by (simp add: cyclic_def)
  then have "s_ptr s x = r" by (rule chain_next)
  moreover have "x \<in> set ns" using l by simp
  ultimately have "x = prev" using cyclic_inj [OF c _ p] e by simp
  with l show ?thesis by (intro that) simp
qed

lemma malloc_loop_search:
  assumes w: "heap_inv L s xs" and n: "n \<noteq> 0" and ex: "\<exists>x\<in>set xs. n \<le> s_size s x"
  shows "\<exists>us prev r pre bs. base L # xs = pre @ prev # r # bs \<and> n \<le> s_size s r \<and>
     malloc_loop L n (freep s) (s_ptr s (freep s)) s = Some (take_block L n prev r s) \<and>
     chain (s_ptr s) (s_ptr s (freep s)) us r \<and> distinct (us @ [r]) \<and>
     (\<forall>u\<in>set us. \<not> n \<le> s_size s u) \<and> prev = last (freep s # us) \<and> s_ptr s prev = r"
proof -
  define ns where "ns = base L # xs"
  have wl: "wfl L s ns" using w by (simp add: heap_inv_wfl ns_def)
  have cyc: "cyclic s ns" and fp: "freep s \<in> set ns" using wl by (simp_all add: wfl_def)
  from cyclic_from [OF cyc fp] obtain ms where
    ms: "cyclic s (freep s # ms)" "set (freep s # ms) = set ns" by blast
  have ch: "chain (s_ptr s) (s_ptr s (freep s)) ms (freep s)" and d: "distinct (freep s # ms)"
    using ms(1) by (simp_all add: cyclic_def)
  from ex have "\<exists>x\<in>set (ms @ [freep s]). n \<le> s_size s x" using ms(2) by (auto simp: ns_def)
  then obtain us r vs where
    split: "ms @ [freep s] = us @ r # vs" and fit: "n \<le> s_size s r"
    and nofit: "\<forall>u\<in>set us. \<not> n \<le> s_size s u"
    using split_list_first_prop [of "ms @ [freep s]" "\<lambda>x. n \<le> s_size s x"] by blast
  have "distinct (us @ r # vs)" using d split [symmetric]
    by (metis distinct.simps(2) distinct1_rotate rotate1.simps(2))
  then have dur: "distinct (us @ [r])" by simp
  have usfp: "\<forall>u\<in>set us. u \<noteq> freep s"
  proof (cases vs rule: rev_cases)
    case Nil
    with split have "us = ms" by simp
    with d show ?thesis by auto
  next
    case (snoc vs' v)
    with split have "v = freep s" "ms = us @ r # vs'" by simp_all
    with d show ?thesis by auto
  qed
  have "chain (s_ptr s) (s_ptr s (freep s)) (ms @ [freep s]) (s_ptr s (freep s))"
    using ch by (simp add: chain_snoc)
  then have chr: "chain (s_ptr s) (s_ptr s (freep s)) us r" unfolding split by (auto simp: chain_append)
  have res: "malloc_loop L n (freep s) (s_ptr s (freep s)) s =
      Some (take_block L n (last (freep s # us)) r s)"
    using chr nofit usfp fit by (intro walk_found) auto
  define prev where "prev = last (freep s # us)"
  have pe: "s_ptr s prev = r"
  proof (cases us rule: rev_cases)
    case Nil
    with chr show ?thesis by (simp add: prev_def)
  next
    case (snoc us' u)
    with chr have "s_ptr s u = r" by (auto simp: chain_snoc)
    with snoc show ?thesis by (simp add: prev_def)
  qed
  have "prev \<in> set (freep s # us)" unfolding prev_def by (rule last_in_set) simp
  moreover have "set us \<subseteq> set (ms @ [freep s])" unfolding split by auto
  ultimately have pin: "prev \<in> set ns" using ms(2) by auto
  have "r \<in> set (ms @ [freep s])" unfolding split by simp
  then have rin: "r \<in> set ns" using ms(2) by auto
  have "r \<noteq> base L" using wl n fit by (rule wfl_fit_not_base)
  then have "r \<noteq> hd ns" by (simp add: ns_def)
  from pred_decomp [OF cyc rin this pin pe] obtain pre bs where "ns = pre @ prev # r # bs" .
  then have "base L # xs = pre @ prev # r # bs" by (simp add: ns_def)
  moreover have "malloc_loop L n (freep s) (s_ptr s (freep s)) s = Some (take_block L n prev r s)"
    using res by (simp add: prev_def)
  ultimately show ?thesis using fit chr dur nofit pe prev_def by blast
qed

lemma malloc_loop_nofit:
  assumes w: "heap_inv L s xs" and n: "n \<noteq> 0" and no: "\<forall>x\<in>set xs. \<not> n \<le> s_size s x"
  shows "malloc_loop L n (freep s) (s_ptr s (freep s)) s =
     (case morecore L n s of None \<Rightarrow> None
      | Some (p1, s1) \<Rightarrow> if p1 = 0 then Some (0, s1) else malloc_loop L n p1 (s_ptr s1 p1) s1)"
proof -
  define ns where "ns = base L # xs"
  have wl: "wfl L s ns" using w by (simp add: heap_inv_wfl ns_def)
  have cyc: "cyclic s ns" and fp: "freep s \<in> set ns" and zb: "s_size s (base L) = 0"
    using wl by (simp_all add: wfl_def)
  have no': "\<forall>x\<in>set ns. \<not> n \<le> s_size s x" using no n zb by (auto simp: ns_def)
  from cyclic_from [OF cyc fp] obtain ms where
    ms: "cyclic s (freep s # ms)" "set (freep s # ms) = set ns" by blast
  have ch: "chain (s_ptr s) (s_ptr s (freep s)) ms (freep s)" and d: "distinct (freep s # ms)"
    using ms(1) by (simp_all add: cyclic_def)
  have "\<forall>u\<in>set ms. \<not> n \<le> s_size s u \<and> u \<noteq> freep s" using no' ms(2) d by auto
  moreover have "\<not> n \<le> s_size s (freep s)" using no' fp by simp
  ultimately show ?thesis using ch by (intro walk_grow) auto
qed

lemma heap_inv_nodes_pos: "heap_inv L s xs \<Longrightarrow> x \<in> set (base L # xs) \<Longrightarrow> 0 < x"
  by (auto simp: heap_inv_def layout_ok_def blk_ok_def)

lemma malloc_loop_found:
  assumes w: "heap_inv L s xs" and n: "n \<noteq> 0" and ex: "\<exists>x\<in>set xs. n \<le> s_size s x"
  shows "\<exists>r s' xs'. malloc_loop L n (freep s) (s_ptr s (freep s)) s = Some (r, s') \<and>
           alloc_post L n s xs r s' xs' \<and> brk s' = brk s \<and> set xs' \<subseteq> set xs"
proof -
  from malloc_loop_search [OF w n ex] obtain prev r pre bs where
    ns: "base L # xs = pre @ prev # r # bs" and fit: "n \<le> s_size s r"
    and res: "malloc_loop L n (freep s) (s_ptr s (freep s)) s = Some (take_block L n prev r s)"
    by blast
  define s' where "s' = snd (take_block L n prev r s)"
  define hdr where "hdr = taken L n r s"
  have wl: "wfl L s (pre @ prev # r # bs)" using w by (simp add: heap_inv_wfl ns)
  from take_block_wfl [OF wl fit n] obtain ns' where
    t: "wfl L s' ns'" "region L s (pre @ prev # r # bs) = region L s' ns' \<union> blk L s' hdr"
       "blk L s' hdr \<inter> region L s' ns' = {}" "set ns' \<subseteq> set (pre @ prev # r # bs)"
    and sz: "s_size s' hdr = n" and ok: "blk_ok L s' hdr"
    and en: "blk_end L s' hdr \<notin> set (pre @ prev # r # bs)"
    unfolding s'_def hdr_def by blast
  have hd: "ns' = base L # tl ns'" using t(1) by (cases ns') (auto simp: wfl_def cyclic_def)
  have w': "heap_inv L s' (tl ns')" using t(1) by (rule wfl_heap_inv)
  have br: "brk s' = brk s" "lim s' = lim s" by (simp_all add: s'_def take_block_frame)
  have tb: "take_block L n prev r s = (hdr + sizeof_Header L, s')"
    by (simp add: s'_def hdr_def prod_eq_iff take_block_ptr)
  have rg: "region L s (base L # xs) = region L s' (base L # tl ns') \<union> blk L s' hdr"
    using t(2) hd ns by simp
  have dj: "blk L s' hdr \<inter> region L s' (base L # tl ns') = {}" using t(3) hd by simp
  have "blk_end L s' hdr \<le> brk s'" using ok by (simp add: blk_ok_def)
  then have dj2: "blk L s' hdr \<inter> {brk s' ..} = {}" by (auto simp: blk_def)
  have "base L \<notin> set (tl ns')" using t(1) hd by (metis cyclic_def distinct.simps(2) wfl_def)
  then have sub: "set (tl ns') \<subseteq> set xs" using t(4) hd ns
    by (metis (no_types, lifting) insert_iff list.set(2) subset_iff)
  have "blk_end L s' hdr \<notin> set (tl ns')" using en sub ns [symmetric] by auto
  then have "alloc_post L n s xs (hdr + sizeof_Header L) s' (tl ns')"
    using w' ok sz rg dj dj2 br by (auto simp: alloc_post_def avail_def)
  with res tb br sub show ?thesis by auto
qed

lemma ivl_join: "a \<le> b \<Longrightarrow> {a ..< b} \<union> {b ..} = {a :: nat ..}"
  by auto

lemma malloc_loop_inv:
  assumes w: "heap_inv L s xs" and n: "n \<noteq> 0" and g: "growth_fits L n"
  shows "\<exists>r s'. malloc_loop L n (freep s) (s_ptr s (freep s)) s = Some (r, s') \<and>
           (r = 0 \<longrightarrow> s' = s \<and> (\<forall>x\<in>set xs. \<not> n \<le> s_size s x) \<and>
                      lim s < brk s + grow_bytes L n) \<and>
           (r \<noteq> 0 \<longrightarrow> (\<exists>xs'. alloc_post L n s xs r s' xs') \<and>
                      ((\<exists>x\<in>set xs. n \<le> s_size s x) \<longrightarrow> brk s' = brk s) \<and>
                      ((\<forall>x\<in>set xs. \<not> n \<le> s_size s x) \<longrightarrow>
                         brk s' = brk s + grow_bytes L n \<and> brk s' \<le> lim s))"
proof (cases "\<exists>x\<in>set xs. n \<le> s_size s x")
  case True
  from malloc_loop_found [OF w n True] obtain r s' xs' where
    f: "malloc_loop L n (freep s) (s_ptr s (freep s)) s = Some (r, s')"
       "alloc_post L n s xs r s' xs'" "brk s' = brk s" by blast
  have "0 < sizeof_Header L" using w by (simp add: heap_inv_def layout_ok_def)
  with f(2) have "r \<noteq> 0" by (simp add: alloc_post_def)
  moreover have "\<exists>xs'. alloc_post L n s xs r s' xs'" using f(2) by blast
  ultimately show ?thesis using f(1) f(3) True
    by (intro exI [of _ r] exI [of _ s']) auto
next
  case False
  then have no: "\<forall>x\<in>set xs. \<not> n \<le> s_size s x" by simp
  note loop = malloc_loop_nofit [OF w n no]
  show ?thesis
  proof (cases "brk s + grow_bytes L n \<le> lim s")
    case room: True
    have nw: "unat (grow_units n) * sizeof_Header L < 2 ^ size_t_bits L"
      using g by (simp add: growth_fits_def)
    from morecore_ok [OF w room nw] obtain s3 xs3 where
      m: "morecore L n s = Some (freep s3, s3)" "heap_inv L s3 xs3"
         "region L s3 (base L # xs3) = region L s (base L # xs) \<union> {brk s ..< brk s3}"
         "\<exists>x\<in>set xs3. n \<le> s_size s3 x" "brk s3 = brk s + grow_bytes L n" "lim s3 = lim s" by blast
    have fp: "freep s3 \<noteq> 0"
      using heap_inv_nodes_pos [OF m(2), of "freep s3"] m(2) by (simp add: heap_inv_def)
    have l: "malloc_loop L n (freep s) (s_ptr s (freep s)) s =
        malloc_loop L n (freep s3) (s_ptr s3 (freep s3)) s3"
      using loop m(1) fp by simp
    from malloc_loop_found [OF m(2) n m(4)] obtain r s' xs' where
      f: "malloc_loop L n (freep s3) (s_ptr s3 (freep s3)) s3 = Some (r, s')"
         "alloc_post L n s3 xs3 r s' xs'" "brk s' = brk s3" by blast
    have u: "{brk s ..< brk s3} \<union> {brk s3 ..} = {brk s ..}" by (rule ivl_join) (simp add: m(5))
    have "avail L s3 xs3 = (region L s (base L # xs) \<union> {brk s ..< brk s3}) \<union> {brk s3 ..}"
      unfolding avail_def m(3) ..
    also have "\<dots> = region L s (base L # xs) \<union> ({brk s ..< brk s3} \<union> {brk s3 ..})"
      by (rule Un_assoc)
    also have "\<dots> = avail L s xs" unfolding u avail_def ..
    finally have av: "avail L s3 xs3 = avail L s xs" .
    have post: "alloc_post L n s xs r s' xs'"
      using f(2) av m(5) m(6) by (simp add: alloc_post_def)
    have "0 < sizeof_Header L" using w by (simp add: heap_inv_def layout_ok_def)
    with f(2) have r0: "r \<noteq> 0" by (simp add: alloc_post_def)
    have "\<exists>xs'. alloc_post L n s xs r s' xs'" using post by blast
    then show ?thesis using l f(1) r0 no m(5) f(3) room
      by (intro exI [of _ r] exI [of _ s']) simp
  next
    case False
    then have "lim s < brk s + grow_bytes L n" by simp
    then have "morecore L n s = Some (0, s)" by (rule morecore_fail)
    with loop have "malloc_loop L n (freep s) (s_ptr s (freep s)) s = Some (0, s)" by simp
    with no False show ?thesis by (intro exI [of _ 0] exI [of _ s]) simp
  qed
qed

section \<open>Requests and the first call\<close>

lemma size_t_of_le: "size_t_of L n \<le> n"
  by (simp add: size_t_of_def)

lemma nunits_pos:
  assumes "layout_ok L"
  shows "nunits_of L nbytes \<noteq> 0"
proof -
  define H where "H = sizeof_Header L"
  define n where "n = unat nbytes"
  define q where "q = size_t_of L (n + H - 1) div H"
  have H2: "2 \<le> H" and W: "32 \<le> size_t_bits L" using assms by (simp_all add: layout_ok_def H_def)
  have n32: "n < 2 ^ 32" unfolding n_def using unsigned_less [of nbytes] by simp
  have "q \<le> (n + H - 1) div H" unfolding q_def by (intro div_le_mono size_t_of_le)
  moreover have "(n + H - 1) div H + 1 < 2 ^ 32" using H2 n32 by (rule units_bound)
  ultimately have q32: "q + 1 < 2 ^ 32" by linarith
  have "(2::nat) ^ 32 \<le> 2 ^ size_t_bits L" using W by (rule power_increasing) simp
  with q32 have "q + 1 < 2 ^ size_t_bits L" by linarith
  then have b: "size_t_of L (q + 1) = q + 1" by (rule size_t_of_id)
  have c: "unat (word_of_nat (q + 1) :: uint) = q + 1"
    using q32 by (simp only: unat_of_nat) simp
  have "nunits_of L nbytes = word_of_nat (size_t_of L (q + 1))"
    using H2 by (simp only: H_def n_def q_def) (simp add: nunits_of_fused)
  then have "unat (nunits_of L nbytes) = q + 1" using b c by simp
  then show ?thesis by (auto simp del: unat_eq_0 simp add: unat_eq_0 [symmetric])
qed

lemma request_ok_exact:
  assumes L: "layout_ok L" and r: "request_ok L nbytes"
  shows "unat (nunits_of L nbytes) = spec_units (sizeof_Header L) (unat nbytes)"
proof -
  have "unat (nunits_of L nbytes) = (unat nbytes + sizeof_Header L - 1) div sizeof_Header L + 1"
    using L r by (intro nunits_no_wrap) (simp_all add: layout_ok_def request_ok_def)
  then show ?thesis using L by (simp add: spec_units_def ceil_div_alt layout_ok_def)
qed

lemma spec_units_bytes: "0 < H \<Longrightarrow> n \<le> (spec_units H n - 1) * H \<and> spec_units H n * H < n + 2 * H"
proof -
  assume H: "0 < H"
  have c: "ceil_div n H = (n + H - 1) div H" using H by (rule ceil_div_alt)
  define q where "q = (n + H - 1) div H"
  have "n + H - 1 = q * H + (n + H - 1) mod H" by (simp add: q_def)
  moreover have "(n + H - 1) mod H < H" using H by simp
  ultimately have "n + H - 1 < q * H + H" "q * H \<le> n + H - 1" by linarith+
  then have "n \<le> q * H" "q * H + H < n + 2 * H" using H by linarith+
  moreover have "spec_units H n = q + 1" by (simp add: spec_units_def c q_def)
  ultimately show ?thesis by simp
qed

lemma request_ok_growth:
  assumes L: "layout_ok L" and r: "request_ok L nbytes"
  shows "growth_fits L (nunits_of L nbytes)"
proof -
  define H where "H = sizeof_Header L"
  have H: "0 < H" using L by (simp add: layout_ok_def H_def)
  have e: "unat (nunits_of L nbytes) = spec_units H (unat nbytes)"
    using request_ok_exact [OF L r] by (simp add: H_def)
  have "spec_units H (unat nbytes) * H < unat nbytes + 2 * H" using spec_units_bytes [OF H] by simp
  then have a: "unat (nunits_of L nbytes) * H < 2 ^ size_t_bits L"
    using r e by (simp add: request_ok_def H_def)
  have b: "4096 * H < 2 ^ size_t_bits L" using L by (simp add: layout_ok_def H_def)
  show ?thesis
    using a b by (simp add: growth_fits_def grow_units_def H_def)
qed

lemma request_ok_64:
  assumes "size_t_bits L = 64" "sizeof_Header L \<le> 2 ^ 32"
  shows "request_ok L nbytes"
proof -
  have "unat nbytes < 2 ^ 32" using unsigned_less [of nbytes] by simp
  with assms show ?thesis by (simp add: request_ok_def)
qed

lemma init_list_id: "freep s \<noteq> 0 \<Longrightarrow> init_list L s = s"
  by (simp add: init_list_def)

lemma heap_inv_freep: "heap_inv L s xs \<Longrightarrow> freep s \<noteq> 0"
  using heap_inv_nodes_pos [of L s xs "freep s"] by (simp add: heap_inv_def)


lemma fresh_init: "fresh L s \<Longrightarrow> heap_inv L (init_list L s) []"
  by (simp add: fresh_def heap_inv_def init_list_def arena_ok_def cyclic_def layout_ok_def)

lemma malloc_unfold:
  "malloc L nbytes s =
     malloc_loop L (nunits_of L nbytes) (freep (init_list L s))
       (s_ptr (init_list L s) (freep (init_list L s))) (init_list L s)"
  by (simp add: malloc_def Let_def)

section \<open>The block that the search of malloc takes\<close>

lemma heap_inv_layout: "heap_inv L s xs \<Longrightarrow> layout_ok L"
  by (simp add: heap_inv_def)

lemma take_block_effects:
  assumes w: "wfl L t (pre @ prev # r # bs)" and fit: "n \<le> s_size t r" and n: "n \<noteq> 0"
    and tb: "take_block L n prev r t = (ptr, s')"
  shows "freep s' = prev \<and> brk s' = brk t \<and> lim s' = lim t \<and>
     (s_size t r = n \<longrightarrow>
        ptr = r + sizeof_Header L \<and> s_ptr s' = (s_ptr t)(prev := s_ptr t r) \<and>
        s_size s' = s_size t \<and> s_ptr s' prev = hd (bs @ [base L]) \<and>
        r \<notin> set (pre @ prev # bs) \<and> heap_inv L s' (tl (pre @ prev # bs))) \<and>
     (s_size t r \<noteq> n \<longrightarrow>
        (let rest = s_size t r - n; r' = r + unat rest * sizeof_Header L
         in ptr = r' + sizeof_Header L \<and> r < r' \<and>
            r' + unat n * sizeof_Header L = blk_end L t r \<and>
            s_size s' = (s_size t)(r := rest, r' := n) \<and> s_size s' r = rest \<and>
            s_size s' r' = n \<and> s_ptr s' = s_ptr t \<and>
            heap_inv L s' (tl (pre @ prev # r # bs))))"
proof -
  have s': "s' = snd (take_block L n prev r t)" and ptr: "ptr = fst (take_block L n prev r t)"
    using tb by simp_all
  have fr: "freep s' = prev" "brk s' = brk t" "lim s' = lim t"
    by (simp_all add: s' take_block_frame)
  have H: "0 < sizeof_Header L" using w by (simp add: wfl_def layout_ok_def)
  have hd: "hd (pre @ prev # r # bs) = base L" using w by (simp add: wfl_def)
  have d: "distinct (pre @ prev # r # bs)" using w by (simp add: wfl_def cyclic_def)
  have "chain (s_ptr t) (base L) (pre @ prev # r # bs) (base L)"
    using w hd by (simp add: wfl_def cyclic_def)
  then have "chain (s_ptr t) (s_ptr t r) bs (base L)" by (auto simp: chain_append)
  then have nx: "s_ptr t r = hd (bs @ [base L])" by (cases bs) auto
  have ex: ?thesis if e: "s_size t r = n"
  proof -
    have "wfl L s' (pre @ prev # bs)" unfolding s' using w e by (rule take_block_exact)
    then have "heap_inv L s' (tl (pre @ prev # bs))" by (rule wfl_heap_inv)
    moreover have "r \<notin> set (pre @ prev # bs)" using d by auto
    moreover have "ptr = r + sizeof_Header L" "s_ptr s' = (s_ptr t)(prev := s_ptr t r)"
      "s_size s' = s_size t"
      using e by (simp_all add: ptr s' take_block_def)
    ultimately show ?thesis using fr e nx by simp
  qed
  have sp: ?thesis if ne: "s_size t r \<noteq> n"
  proof -
    have w': "wfl L t ((pre @ [prev]) @ r # bs)" using w by simp
    note ts = take_block_split [OF w' fit ne n, of prev]
    have "wfl L s' (pre @ prev # r # bs)" using ts(1) unfolding s' by simp
    then have hi: "heap_inv L s' (tl (pre @ prev # r # bs))" by (rule wfl_heap_inv)
    define rest where "rest = s_size t r - n"
    define r' where "r' = r + unat rest * sizeof_Header L"
    have tk: "taken L n r t = r'" using ne by (simp add: taken_def r'_def rest_def)
    have "r < r'" "blk_end L s' r' = blk_end L t r" "s_size s' r' = n"
      using ts(4-6) unfolding s' tk by simp_all
    moreover have "ptr = r' + sizeof_Header L" by (simp add: ptr take_block_ptr tk)
    moreover have "s_size s' = (s_size t)(r := rest, r' := n)" "s_ptr s' = s_ptr t"
      using ne by (simp_all add: s' take_block_def Let_def rest_def r'_def)
    ultimately have "ptr = r' + sizeof_Header L \<and> r < r' \<and>
            r' + unat n * sizeof_Header L = blk_end L t r \<and>
            s_size s' = (s_size t)(r := rest, r' := n) \<and> s_size s' r = rest \<and>
            s_size s' r' = n \<and> s_ptr s' = s_ptr t"
      by (auto simp: blk_end_def)
    with hi fr ne show ?thesis unfolding rest_def r'_def by (simp add: Let_def)
  qed
  from ex sp show ?thesis by blast
qed

lemma search_takes:
  assumes w: "heap_inv L t ts" and n: "n \<noteq> 0" and ex: "\<exists>x\<in>set ts. n \<le> s_size t x"
    and res: "malloc_loop L n (freep t) (s_ptr t (freep t)) t = Some (ptr, s')"
  shows "\<exists>us prev r pre bs. served L n t ts us prev r pre bs ptr s'"
proof -
  from malloc_loop_search [OF w n ex] obtain us prev r pre bs where
    a: "base L # ts = pre @ prev # r # bs" "n \<le> s_size t r"
       "malloc_loop L n (freep t) (s_ptr t (freep t)) t = Some (take_block L n prev r t)"
       "chain (s_ptr t) (s_ptr t (freep t)) us r" "distinct (us @ [r])"
       "\<forall>u\<in>set us. \<not> n \<le> s_size t u" "prev = last (freep t # us)" "s_ptr t prev = r"
    by blast
  have tb: "take_block L n prev r t = (ptr, s')" using a(3) res by simp
  have wl: "wfl L t (pre @ prev # r # bs)" using w by (simp add: heap_inv_wfl a(1))
  have tl: "tl (pre @ prev # r # bs) = ts" using a(1) [symmetric] by simp
  note e = take_block_effects [OF wl a(2) n tb, unfolded tl]
  have "served L n t ts us prev r pre bs ptr s'"
    unfolding served_def using a(1,2,4,5,6,7,8) e by blast
  then show ?thesis by blast
qed

lemma ex_layout_ok: "layout_ok ex_layout"
  by (simp add: layout_ok_def ex_layout_def)

lemma ex_nunits: "nunits_of ex_layout 48 = 4" "nunits_of ex_layout 32 = 3"
  by (simp_all add: nunits_of_def units_dec_def units_sum_def size_t_dec_def size_t_of_def
      ex_layout_def)

lemma ex_heap3_inv: "heap_inv ex_layout ex_heap3 [64, 128]"
  by (simp add: heap_inv_def ex_layout_ok arena_ok_def cyclic_def blk_ok_def blk_end_def)
     (simp add: ex_layout_def ex_heap3_def)

lemma ex_heap3_init: "init_list ex_layout ex_heap3 = ex_heap3"
  by (simp add: init_list_def ex_heap3_def)

lemma ex_heap3_exact:
  "malloc ex_layout 48 ex_heap3 =
     Some (144, ex_heap3\<lparr>s_ptr := (s_ptr ex_heap3)(64 := 16), freep := 64\<rparr>)"
  apply (simp add: malloc_unfold ex_nunits ex_heap3_init)
  apply (subst malloc_loop.simps)
  apply (simp add: ex_heap3_def)
  apply (subst malloc_loop.simps)
  apply (simp add: ex_heap3_def take_block_def ex_layout_def)
  done

lemma ex_heap3_split:
  "malloc ex_layout 32 ex_heap3 =
     Some (160, ex_heap3\<lparr>s_size := (s_size ex_heap3)(128 := 1, 144 := 3), freep := 64\<rparr>)"
  apply (simp add: malloc_unfold ex_nunits ex_heap3_init)
  apply (subst malloc_loop.simps)
  apply (simp add: ex_heap3_def)
  apply (subst malloc_loop.simps)
  apply (simp add: ex_heap3_def take_block_def ex_layout_def Let_def)
  done



section \<open>What malloc and free guarantee\<close>

lemma malloc_inv:
  assumes w: "heap_inv L (init_list L s) xs"
    and g: "(\<forall>x\<in>set xs. \<not> nunits_of L nbytes \<le> s_size (init_list L s) x) \<longrightarrow>
              growth_fits L (nunits_of L nbytes)"
  defines "s0 \<equiv> init_list L s" and "n \<equiv> nunits_of L nbytes"
  shows "\<exists>r s'. malloc L nbytes s = Some (r, s') \<and>
           (r = 0 \<longrightarrow> s' = s0 \<and> (\<forall>x\<in>set xs. \<not> n \<le> s_size s0 x) \<and>
                      lim s0 < brk s0 + grow_bytes L n) \<and>
           (r \<noteq> 0 \<longrightarrow> (\<exists>xs'. alloc_post L n s0 xs r s' xs') \<and>
                      ((\<exists>x\<in>set xs. n \<le> s_size s0 x) \<longrightarrow> brk s' = brk s0) \<and>
                      ((\<forall>x\<in>set xs. \<not> n \<le> s_size s0 x) \<longrightarrow>
                         brk s' = brk s0 + grow_bytes L n \<and> brk s' \<le> lim s0))"
proof (cases "\<exists>x\<in>set xs. n \<le> s_size s0 x")
  case True
  have n0: "n \<noteq> 0" unfolding n_def using heap_inv_layout [OF w] by (rule nunits_pos)
  have w0: "heap_inv L s0 xs" using w by (simp add: s0_def)
  from malloc_loop_found [OF w0 n0 True] obtain r s' xs' where
    f: "malloc_loop L n (freep s0) (s_ptr s0 (freep s0)) s0 = Some (r, s')"
       "alloc_post L n s0 xs r s' xs'" "brk s' = brk s0" by blast
  have "0 < sizeof_Header L" using w by (simp add: heap_inv_def layout_ok_def)
  with f(2) have "r \<noteq> 0" by (simp add: alloc_post_def)
  moreover have "\<exists>xs'. alloc_post L n s0 xs r s' xs'" using f(2) by blast
  moreover have "malloc L nbytes s = Some (r, s')" using f(1) by (simp add: malloc_unfold s0_def n_def)
  ultimately show ?thesis using f(3) True
    by (intro exI [of _ r] exI [of _ s']) auto
next
  case False
  then have gf: "growth_fits L (nunits_of L nbytes)" using g by (simp add: s0_def n_def)
  have n0: "nunits_of L nbytes \<noteq> 0" using heap_inv_layout [OF w] by (rule nunits_pos)
  from malloc_loop_inv [OF w n0 gf]
  show ?thesis unfolding malloc_unfold s0_def n_def .
qed

lemma malloc_fail:
  assumes w: "heap_inv L (init_list L s) xs"
    and no: "\<forall>x\<in>set xs. \<not> nunits_of L nbytes \<le> s_size (init_list L s) x"
    and full: "lim s < brk s + grow_bytes L (nunits_of L nbytes)"
  shows "malloc L nbytes s = Some (0, init_list L s)"
proof -
  have n0: "nunits_of L nbytes \<noteq> 0" using heap_inv_layout [OF w] by (rule nunits_pos)
  have "lim (init_list L s) < brk (init_list L s) + grow_bytes L (nunits_of L nbytes)"
    using full by (simp add: init_list_def)
  then have "morecore L (nunits_of L nbytes) (init_list L s) = Some (0, init_list L s)"
    by (rule morecore_fail)
  with malloc_loop_nofit [OF w n0 no] show ?thesis by (simp add: malloc_unfold)
qed

lemma ex_heap_gap_inv: "heap_inv ex_layout ex_heap_gap [64, 128]"
  by (simp add: heap_inv_def ex_layout_ok arena_ok_def cyclic_def blk_ok_def blk_end_def)
     (simp add: ex_layout_def ex_heap_gap_def)

lemma ex_heap_gap_chunk: "chunk ex_layout ex_heap_gap [64, 128] 96"
  by (simp add: chunk_def blk_ok_def blk_end_def ex_layout_def ex_heap_gap_def)

lemma ex_heap_gap_free:
  "free ex_layout 112 ex_heap_gap =
     Some (ex_heap_gap\<lparr>s_size := (s_size ex_heap_gap)(96 := 6, 64 := 8),
                        s_ptr := (s_ptr ex_heap_gap)(96 := 16, 64 := 16), freep := 64\<rparr>)"
  apply (simp add: free_def ex_layout_def)
  apply (subst free_scan.simps)
  apply (simp add: ex_heap_gap_def)
  apply (subst free_scan.simps)
  apply (simp add: ex_heap_gap_def free_link_def)
  done

text \<open>
  C2. On a well-formed heap, free of a block of the managed region that overlaps no free
  block returns and leaves a well-formed heap in which no free block ends where another
  node of the list starts; the free memory afterwards is the free memory before
  together with the freed block, nothing lost and nothing twice. The same holds of
  morecore, which hands the freshly grown span to free, when the growth primitive
  succeeds and the byte count of the growth does not wrap: the free memory afterwards
  is the free memory before together with the new span.
\<close>

theorem free_no_adjacent:
  assumes inv: "heap_inv L s xs"
  shows "(chunk L s xs bp \<longrightarrow>
           (\<exists>s' xs'. free L (bp + sizeof_Header L) s = Some s' \<and> heap_inv L s' xs' \<and>
              no_adjacent L s' (base L # xs') \<and>
              region L s' (base L # xs') = region L s (base L # xs) \<union> blk L s bp)) \<and>
         (growth_fits L nu \<and> brk s + grow_bytes L nu \<le> lim s \<longrightarrow>
           (\<exists>s' xs'. morecore L nu s = Some (freep s', s') \<and> heap_inv L s' xs' \<and>
              no_adjacent L s' (base L # xs') \<and>
              region L s' (base L # xs') = region L s (base L # xs) \<union> {brk s ..< brk s'}))"
proof (intro conjI impI)
  assume "chunk L s xs bp"
  from free_heap_inv [OF inv this] obtain s' xs' where
    f: "free L (bp + sizeof_Header L) s = Some s'" "heap_inv L s' xs'"
       "region L s' (base L # xs') = region L s (base L # xs) \<union> blk L s bp" by blast
  from f(2) have "no_adjacent L s' (base L # xs')" by (rule heap_inv_no_adjacent)
  with f show "\<exists>s' xs'. free L (bp + sizeof_Header L) s = Some s' \<and> heap_inv L s' xs' \<and>
              no_adjacent L s' (base L # xs') \<and>
              region L s' (base L # xs') = region L s (base L # xs) \<union> blk L s bp" by blast
next
  assume "growth_fits L nu \<and> brk s + grow_bytes L nu \<le> lim s"
  then have g: "unat (grow_units nu) * sizeof_Header L < 2 ^ size_t_bits L"
    and room: "brk s + grow_bytes L nu \<le> lim s" by (simp_all add: growth_fits_def)
  from morecore_ok [OF inv room g] obtain s' xs' where
    f: "morecore L nu s = Some (freep s', s')" "heap_inv L s' xs'"
       "region L s' (base L # xs') = region L s (base L # xs) \<union> {brk s ..< brk s'}" by blast
  from f(2) have "no_adjacent L s' (base L # xs')" by (rule heap_inv_no_adjacent)
  with f show "\<exists>s' xs'. morecore L nu s = Some (freep s', s') \<and> heap_inv L s' xs' \<and>
              no_adjacent L s' (base L # xs') \<and>
              region L s' (base L # xs') = region L s (base L # xs) \<union> {brk s ..< brk s'}" by blast
qed

theorem free_no_adjacent_witness:
  "(\<exists>s' xs'. free ex_layout 112 ex_heap_gap = Some s' \<and> heap_inv ex_layout s' xs' \<and>
      no_adjacent ex_layout s' (16 # xs') \<and>
      region ex_layout s' (16 # xs') =
        region ex_layout ex_heap_gap [16, 64, 128] \<union> blk ex_layout ex_heap_gap 96 \<and>
      s_ptr s' 16 = 64 \<and> s_ptr s' 64 = 16 \<and> s_size s' 64 = 8) \<and>
   (\<exists>s' xs'. morecore ex_layout 1 ex_heap_gap = Some (freep s', s') \<and> heap_inv ex_layout s' xs' \<and>
      no_adjacent ex_layout s' (16 # xs') \<and>
      region ex_layout s' (16 # xs') =
        region ex_layout ex_heap_gap [16, 64, 128] \<union> {8192 ..< brk s'})"
proof -
  have g: "growth_fits ex_layout 1 \<and> brk ex_heap_gap + grow_bytes ex_layout 1 \<le> lim ex_heap_gap"
    by (simp add: growth_fits_def grow_bytes_def grow_units_def size_t_of_def ex_layout_def
        ex_heap_gap_def)
  have b: "base ex_layout = 16" "sizeof_Header ex_layout = 16" "brk ex_heap_gap = 8192"
    by (simp_all add: ex_layout_def ex_heap_gap_def)
  show ?thesis
    using free_no_adjacent [OF ex_heap_gap_inv, of 96 1] g ex_heap_gap_chunk
    by (simp add: b ex_heap_gap_free) (simp add: ex_heap_gap_def)
qed





lemma blk_self: "0 < sizeof_Header L \<Longrightarrow> s_size s x \<noteq> 0 \<Longrightarrow> x \<in> blk L s x"
  by (simp add: blk_def blk_end_gt)


lemma alloc_post_not_free:
  assumes p: "alloc_post L n s xs r s' xs'" and n: "n \<noteq> 0"
  shows "r - sizeof_Header L \<notin> set (base L # xs')" "r \<noteq> base L + sizeof_Header L"
    "r - sizeof_Header L \<in> avail L s xs"
proof -
  define hdr where "hdr = r - sizeof_Header L"
  have w': "heap_inv L s' xs'" and ok: "blk_ok L s' hdr" and sz: "s_size s' hdr = n"
    and dj: "blk L s' hdr \<inter> avail L s' xs' = {}" and rh: "sizeof_Header L \<le> r"
    and av: "avail L s xs = avail L s' xs' \<union> blk L s' hdr"
    using p by (simp_all add: alloc_post_def hdr_def)
  have H: "0 < sizeof_Header L" using w' by (simp add: heap_inv_def layout_ok_def)
  have self: "hdr \<in> blk L s' hdr" using H sz n by (intro blk_self) simp_all
  have hb: "base L < hdr" using ok H by (simp add: blk_ok_def)
  have "hdr \<notin> set xs'"
  proof
    assume x: "hdr \<in> set xs'"
    then have "blk L s' hdr \<subseteq> avail L s' xs'" by (auto simp: avail_def region_def)
    with self dj show False by auto
  qed
  with hb show "r - sizeof_Header L \<notin> set (base L # xs')" by (simp add: hdr_def)
  show "r \<noteq> base L + sizeof_Header L" using hb rh by (auto simp: hdr_def)
  show "r - sizeof_Header L \<in> avail L s xs" using self av by (simp add: hdr_def)
qed


lemma ex_heap3_nofit: "\<forall>x\<in>set [64, 128]. \<not> nunits_of ex_layout 1024 \<le> s_size ex_heap3 x"
  by (simp add: nunits_of_def units_dec_def units_sum_def size_t_dec_def size_t_of_def
      ex_layout_def ex_heap3_def)

lemma ex_grow_bytes: "grow_bytes ex_layout (nunits_of ex_layout 1024) = 65536"
  "grow_bytes ex_layout (nunits_of ex_layout 64) = 65536"
  by (simp_all add: nunits_of_def units_dec_def units_sum_def size_t_dec_def size_t_of_def
      grow_bytes_def grow_units_def ex_layout_def)

lemma ex_full_inv: "heap_inv ex_layout (init_list ex_layout ex_full) []"
  by (rule fresh_init) (simp add: fresh_def ex_layout_ok arena_ok_def, simp add: ex_layout_def ex_full_def)

text \<open>
  C3, as amended. When no block of the free list is large enough and the growth
  primitive fails, malloc returns 0 and the store it leaves is the store of the call
  after the initialisation of lines 94 to 97: unchanged when the list had been
  initialised before (the cursor is not 0), and otherwise changed in the link and the
  size of the sentinel and in the cursor, which now make the list of the sentinel alone.
\<close>

theorem malloc_out_of_memory:
  assumes inv: "heap_inv L (init_list L s) xs"
    and no: "\<forall>x\<in>set xs. \<not> nunits_of L nbytes \<le> s_size (init_list L s) x"
    and full: "sbrk (grow_bytes L (nunits_of L nbytes)) (init_list L s) = None"
  shows "malloc L nbytes s = Some (0, init_list L s) \<and> (freep s \<noteq> 0 \<longrightarrow> init_list L s = s) \<and>
         (freep s = 0 \<longrightarrow>
            init_list L s = s\<lparr>s_ptr := (s_ptr s)(base L := base L), freep := base L,
                               s_size := (s_size s)(base L := 0)\<rparr>)"
proof -
  have "lim s < brk s + grow_bytes L (nunits_of L nbytes)"
    using full by (simp add: sbrk_def init_list_def split: if_splits)
  from malloc_fail [OF inv no this] show ?thesis by (simp add: init_list_def)
qed

theorem malloc_out_of_memory_witness:
  "malloc ex_layout 1024 ex_heap3 = Some (0, ex_heap3) \<and>
   malloc ex_layout 64 ex_full =
     Some (0, ex_full\<lparr>s_ptr := (s_ptr ex_full)(16 := 16), freep := 16,
                       s_size := (s_size ex_full)(16 := 0)\<rparr>)"
proof -
  have a: "sbrk (grow_bytes ex_layout (nunits_of ex_layout 1024)) (init_list ex_layout ex_heap3) = None"
    by (simp add: ex_grow_bytes ex_heap3_init) (simp add: sbrk_def ex_heap3_def)
  have b: "sbrk (grow_bytes ex_layout (nunits_of ex_layout 64)) (init_list ex_layout ex_full) = None"
    by (simp add: ex_grow_bytes sbrk_def init_list_def ex_full_def)
  have i: "heap_inv ex_layout (init_list ex_layout ex_heap3) [64, 128]"
    by (simp add: ex_heap3_init ex_heap3_inv)
  have n: "\<forall>x\<in>set [64, 128]. \<not> nunits_of ex_layout 1024 \<le> s_size (init_list ex_layout ex_heap3) x"
    using ex_heap3_nofit by (simp add: ex_heap3_init)
  have f: "freep ex_heap3 \<noteq> 0" "freep ex_full = 0" "base ex_layout = 16"
    by (simp_all add: ex_heap3_def ex_full_def ex_layout_def)
  show ?thesis
    using malloc_out_of_memory [OF i n a] malloc_out_of_memory [OF ex_full_inv _ b] f
    by simp
qed

lemma ex_full_fresh: "fresh ex_layout ex_full"
  by (simp add: fresh_def ex_layout_ok arena_ok_def) (simp add: ex_layout_def ex_full_def)

text \<open>
  The claim as stated fails on a first call: the growth primitive fails, malloc returns
  0, and the cursor and the link of the sentinel, both 0 before the call, hold the
  address of the sentinel after it.
\<close>

theorem malloc_first_call_sets_cursor:
  "fresh ex_layout ex_full \<and>
   sbrk (grow_bytes ex_layout (nunits_of ex_layout 64)) ex_full = None \<and>
   malloc ex_layout 64 ex_full =
     Some (0, ex_full\<lparr>s_ptr := (s_ptr ex_full)(16 := 16), freep := 16,
                       s_size := (s_size ex_full)(16 := 0)\<rparr>) \<and>
   freep ex_full = 0 \<and> s_ptr ex_full 16 = 0"
  apply (simp add: ex_full_fresh ex_grow_bytes malloc_unfold)
  apply (subst malloc_loop.simps)
  apply (simp add: nunits_of_def units_dec_def units_sum_def size_t_dec_def size_t_of_def
      morecore_def sbrk_def init_list_def ex_layout_def ex_full_def)
  done

lemma ex_fresh_inv: "heap_inv ex_layout (init_list ex_layout ex_fresh) []"
  by (rule fresh_init) (simp add: fresh_def ex_layout_ok arena_ok_def, simp add: ex_layout_def ex_fresh_def)

lemma ex_heap_gap_init: "init_list ex_layout ex_heap_gap = ex_heap_gap"
  by (simp add: init_list_def ex_heap_gap_def)




text \<open>
  C9. The needed unit count is at least 1. A call of malloc on a heap that is well
  formed after the initialisation of lines 94 to 97 (when no block is large enough:
  with a growth whose byte count does not wrap) returns and leaves a well-formed heap:
  the sentinel has size 0 and is on the cyclic list. A pointer it returns other than 0
  is not the pointer of the sentinel, its block is not a node of the list, and the size
  of its block is at least the needed count, hence at least 1. A call of free on a
  well-formed heap, for a block of the managed region that overlaps no free block,
  leaves a well-formed heap, the sentinel of size 0 and on the cyclic list.
\<close>

theorem sentinel_kept:
  assumes L: "layout_ok L"
  shows "1 \<le> unat (nunits_of L nbytes) \<and>
         (heap_inv L (init_list L s) xs \<and>
          ((\<forall>x\<in>set xs. \<not> nunits_of L nbytes \<le> s_size (init_list L s) x) \<longrightarrow>
             growth_fits L (nunits_of L nbytes)) \<longrightarrow>
            (\<exists>r s' xs'. malloc L nbytes s = Some (r, s') \<and> heap_inv L s' xs' \<and>
               s_size s' (base L) = 0 \<and> cyclic s' (base L # xs') \<and>
               (r \<noteq> 0 \<longrightarrow> r \<noteq> base L + sizeof_Header L \<and>
                          r - sizeof_Header L \<notin> set (base L # xs') \<and>
                          nunits_of L nbytes \<le> s_size s' (r - sizeof_Header L) \<and>
                          1 \<le> unat (s_size s' (r - sizeof_Header L))))) \<and>
         (heap_inv L s xs \<and> chunk L s xs bp \<longrightarrow>
            (\<exists>s' xs'. free L (bp + sizeof_Header L) s = Some s' \<and> heap_inv L s' xs' \<and>
               s_size s' (base L) = 0 \<and> cyclic s' (base L # xs')))"
proof (intro conjI impI)
  have n0: "nunits_of L nbytes \<noteq> 0" using L by (rule nunits_pos)
  then show n1: "1 \<le> unat (nunits_of L nbytes)" by (simp add: Suc_le_eq unat_gt_0)
  {
    assume a: "heap_inv L (init_list L s) xs \<and>
          ((\<forall>x\<in>set xs. \<not> nunits_of L nbytes \<le> s_size (init_list L s) x) \<longrightarrow>
             growth_fits L (nunits_of L nbytes))"
    then have inv0: "heap_inv L (init_list L s) xs"
      and g: "(\<forall>x\<in>set xs. \<not> nunits_of L nbytes \<le> s_size (init_list L s) x) \<longrightarrow>
             growth_fits L (nunits_of L nbytes)" by simp_all
    from malloc_inv [OF inv0 g] obtain r s' where
      m: "malloc L nbytes s = Some (r, s')" and fail: "r = 0 \<longrightarrow> s' = init_list L s"
      and ok: "r \<noteq> 0 \<longrightarrow> (\<exists>xs'. alloc_post L (nunits_of L nbytes) (init_list L s) xs r s' xs')"
      by blast
    show "\<exists>r s' xs'. malloc L nbytes s = Some (r, s') \<and> heap_inv L s' xs' \<and>
               s_size s' (base L) = 0 \<and> cyclic s' (base L # xs') \<and>
               (r \<noteq> 0 \<longrightarrow> r \<noteq> base L + sizeof_Header L \<and>
                          r - sizeof_Header L \<notin> set (base L # xs') \<and>
                          nunits_of L nbytes \<le> s_size s' (r - sizeof_Header L) \<and>
                          1 \<le> unat (s_size s' (r - sizeof_Header L)))"
    proof (cases "r = 0")
      case True
      with fail m inv0 show ?thesis
        by (intro exI [of _ r] exI [of _ s'] exI [of _ xs]) (simp add: heap_inv_def)
    next
      case False
      with ok obtain xs' where p: "alloc_post L (nunits_of L nbytes) (init_list L s) xs r s' xs'"
        by blast
      note nf = alloc_post_not_free [OF p n0]
      have "heap_inv L s' xs'" "s_size s' (r - sizeof_Header L) = nunits_of L nbytes"
        using p by (simp_all add: alloc_post_def)
      then show ?thesis using m nf n1
        by (intro exI [of _ r] exI [of _ s'] exI [of _ xs']) (simp add: heap_inv_def)
    qed
  }
  {
    assume "heap_inv L s xs \<and> chunk L s xs bp"
    then have inv: "heap_inv L s xs" and c: "chunk L s xs bp" by simp_all
    from free_heap_inv [OF inv c] obtain s' xs' where
      f: "free L (bp + sizeof_Header L) s = Some s'" "heap_inv L s' xs'" by blast
    then show "\<exists>s' xs'. free L (bp + sizeof_Header L) s = Some s' \<and> heap_inv L s' xs' \<and>
               s_size s' (base L) = 0 \<and> cyclic s' (base L # xs')"
      by (intro exI [of _ s'] exI [of _ xs']) (simp add: heap_inv_def)
  }
qed

theorem sentinel_kept_witness:
  "1 \<le> unat (nunits_of ex_layout 48) \<and>
   (\<exists>r s' xs'. malloc ex_layout 48 ex_fresh = Some (r, s') \<and> heap_inv ex_layout s' xs' \<and>
      s_size s' 16 = 0 \<and> cyclic s' (16 # xs') \<and>
      (r \<noteq> 0 \<longrightarrow> r \<noteq> 32 \<and> r - 16 \<notin> set (16 # xs') \<and>
         nunits_of ex_layout 48 \<le> s_size s' (r - 16) \<and> 1 \<le> unat (s_size s' (r - 16)))) \<and>
   (\<exists>r s' xs'. malloc ex_layout 48 ex_heap_gap = Some (r, s') \<and> heap_inv ex_layout s' xs' \<and>
      s_size s' 16 = 0 \<and> cyclic s' (16 # xs') \<and>
      (r \<noteq> 0 \<longrightarrow> r \<noteq> 32 \<and> r - 16 \<notin> set (16 # xs') \<and>
         nunits_of ex_layout 48 \<le> s_size s' (r - 16) \<and> 1 \<le> unat (s_size s' (r - 16)))) \<and>
   (\<exists>s' xs'. free ex_layout 112 ex_heap_gap = Some s' \<and> heap_inv ex_layout s' xs' \<and>
      s_size s' 16 = 0 \<and> cyclic s' (16 # xs'))"
proof -
  have g: "growth_fits ex_layout (nunits_of ex_layout 48)"
    unfolding ex_nunits by (simp add: growth_fits_def grow_units_def ex_layout_def)
  have i: "heap_inv ex_layout (init_list ex_layout ex_heap_gap) [64, 128]"
    by (simp add: ex_heap_gap_init ex_heap_gap_inv)
  have b: "base ex_layout = 16" "sizeof_Header ex_layout = 16" by (simp_all add: ex_layout_def)
  show ?thesis
    using sentinel_kept [OF ex_layout_ok, of 48 ex_fresh "[]" 96]
      sentinel_kept [OF ex_layout_ok, of 48 ex_heap_gap "[64, 128]" 96]
      g i ex_fresh_inv ex_heap_gap_inv ex_heap_gap_chunk
    by (simp add: b)
qed










section \<open>Allocations in sequence\<close>















section \<open>Allocate, free, allocate again\<close>

lemma chain_unique:
  "chain f p xs q \<Longrightarrow> chain f p ys q \<Longrightarrow> q \<notin> set xs \<Longrightarrow> q \<notin> set ys \<Longrightarrow> xs = ys"
proof (induction xs arbitrary: p ys)
  case Nil
  then show ?case by (cases ys) auto
next
  case (Cons x xs)
  then show ?case by (cases ys) auto
qed

lemma heap_inv_unique:
  assumes "heap_inv L s xs" "heap_inv L s ys"
  shows "xs = ys"
proof -
  have "chain (s_ptr s) (s_ptr s (base L)) xs (base L)" "base L \<notin> set xs"
    using assms(1) by (simp_all add: heap_inv_def cyclic_def)
  moreover have "chain (s_ptr s) (s_ptr s (base L)) ys (base L)" "base L \<notin> set ys"
    using assms(2) by (simp_all add: heap_inv_def cyclic_def)
  ultimately show ?thesis by (rule_tac chain_unique)
qed

lemma sep_blocks:
  assumes s: "sep L s lo ns" and a: "a \<in> set ns" and b: "b \<in> set ns" and ab: "a \<noteq> b"
  shows "blk_end L s a < b \<or> blk_end L s b < a"
proof -
  from a obtain us vs where ns: "ns = us @ a # vs" by (auto simp: in_set_conv_decomp)
  show ?thesis
  proof (cases "b \<in> set vs")
    case True
    with s ns show ?thesis by (auto dest: sep_pair)
  next
    case False
    with b ab ns have "b \<in> set us" by auto
    then obtain us' vs' where us: "us = us' @ b # vs'" by (auto simp: in_set_conv_decomp)
    have "sep L s lo (us' @ b # (vs' @ a # vs))" using s ns us by simp
    moreover have "a \<in> set (vs' @ a # vs)" by simp
    ultimately have "blk_end L s b < a" by (rule sep_pair)
    then show ?thesis by simp
  qed
qed

lemma heap_inv_cong:
  assumes w: "heap_inv L t ts"
    and p: "\<forall>x\<in>set (base L # ts). s_ptr s x = s_ptr t x"
    and z: "\<forall>x\<in>set (base L # ts). s_size s x = s_size t x"
    and f: "freep s \<in> set (base L # ts)" and b: "brk s = brk t" "lim s = lim t"
  shows "heap_inv L s ts"
proof -
  have "chain (s_ptr s) (base L) (base L # ts) (base L) = chain (s_ptr t) (base L) (base L # ts) (base L)"
    using p by (intro chain_cong) auto
  then have c: "cyclic s (base L # ts)" using w by (simp add: heap_inv_def cyclic_def)
  have "sep L t 0 (base L # ts)" using w by (simp add: heap_inv_def)
  then have sp: "sep L s 0 (base L # ts)" using z by (rule sep_congI)
  have ok: "blk_ok L s x" if x: "x \<in> set ts" for x
  proof -
    have "blk_ok L t x" using w x by (simp add: heap_inv_def)
    moreover have "s_size s x = s_size t x" using z x by simp
    ultimately show ?thesis using b by (simp add: blk_ok_def blk_end_def)
  qed
  have "arena_ok L s" using w b by (simp add: heap_inv_def arena_ok_def)
  moreover have "s_size s (base L) = 0" using w z by (simp add: heap_inv_def)
  ultimately show ?thesis using w c sp ok f by (simp add: heap_inv_def)
qed

lemma free_link_C_eq:
  assumes "p \<noteq> bp" "blk_end L s bp \<noteq> s_ptr s p" "blk_end L s p = bp"
  shows "free_link L bp p s =
     s\<lparr>s_ptr := (s_ptr s)(bp := s_ptr s p, p := s_ptr s p),
       s_size := (s_size s)(p := s_size s p + s_size s bp), freep := p\<rparr>"
  using assms by (simp add: free_link_def Let_def blk_end_def)

lemma cycle_covers:
  assumes c: "cyclic s ns" and r: "r \<in> set ns"
    and ch: "chain (s_ptr s) (s_ptr s r) us r" and nr: "r \<notin> set us"
  shows "set ns \<subseteq> insert r (set us)"
proof -
  from cyclic_from [OF c r] obtain ms where
    ms: "cyclic s (r # ms)" "set (r # ms) = set ns" by blast
  have "chain (s_ptr s) (s_ptr s r) ms r" "r \<notin> set ms" using ms(1) by (simp_all add: cyclic_def)
  with ch nr have "us = ms" by (rule_tac chain_unique)
  with ms(2) show ?thesis by auto
qed

lemma wfl_next: "wfl L t (pre @ r # bs) \<Longrightarrow> s_ptr t r = hd (bs @ [base L])"
proof -
  assume w: "wfl L t (pre @ r # bs)"
  then have "hd (pre @ r # bs) = base L" by (simp add: wfl_def)
  with w have "chain (s_ptr t) (base L) (pre @ r # bs) (base L)" by (simp add: wfl_def cyclic_def)
  then have "chain (s_ptr t) (s_ptr t r) bs (base L)" by (auto simp: chain_append)
  then show ?thesis by (cases bs) auto
qed

lemma wfl_base_le: "wfl L t (pre @ p # bs) \<Longrightarrow> base L \<le> p"
proof -
  assume w: "wfl L t (pre @ p # bs)"
  show ?thesis
  proof (cases pre)
    case Nil
    with w show ?thesis by (simp add: wfl_def)
  next
    case (Cons a pre')
    with w have a: "a = base L" by (simp add: wfl_def)
    have "sep L t 0 (pre @ p # bs)" using w by (simp add: wfl_def)
    then have "sep L t 0 (a # pre' @ p # bs)" using Cons by simp
    then have "sep L t (blk_end L t a) (pre' @ p # bs)" by simp
    moreover have "p \<in> set (pre' @ p # bs)" by simp
    ultimately have "blk_end L t a < p" by (rule sep_lower)
    moreover have "a \<le> blk_end L t a" by (rule blk_end_ge)
    ultimately show ?thesis using a by simp
  qed
qed

lemma malloc_served:
  assumes inv: "heap_inv L (init_list L s) xs"
    and g: "(\<forall>x\<in>set xs. \<not> nunits_of L nbytes \<le> s_size (init_list L s) x) \<longrightarrow>
              growth_fits L (nunits_of L nbytes)"
    and m: "malloc L nbytes s = Some (ptr, s')" and nz: "ptr \<noteq> 0"
  shows "\<exists>t ts us prev r pre bs.
     heap_inv L t ts \<and> served L (nunits_of L nbytes) t ts us prev r pre bs ptr s'"
proof -
  define n where "n = nunits_of L nbytes"
  define s0 where "s0 = init_list L s"
  have n0: "n \<noteq> 0" unfolding n_def using heap_inv_layout [OF inv] by (rule nunits_pos)
  have w: "heap_inv L s0 xs" using inv by (simp add: s0_def)
  have m0: "malloc_loop L n (freep s0) (s_ptr s0 (freep s0)) s0 = Some (ptr, s')"
    using m by (simp add: malloc_unfold n_def s0_def)
  show ?thesis
  proof (cases "\<exists>x\<in>set xs. n \<le> s_size s0 x")
    case True
    from search_takes [OF w n0 True m0] obtain us prev r pre bs where
      "served L n s0 xs us prev r pre bs ptr s'" by blast
    with w show ?thesis unfolding n_def by blast
  next
    case False
    then have no: "\<forall>x\<in>set xs. \<not> n \<le> s_size s0 x" by simp
    then have gf: "unat (grow_units n) * sizeof_Header L < 2 ^ size_t_bits L"
      using g by (simp add: n_def s0_def growth_fits_def)
    note loop = malloc_loop_nofit [OF w n0 no]
    have room: "brk s0 + grow_bytes L n \<le> lim s0"
    proof (rule ccontr)
      assume "\<not> ?thesis"
      then have "morecore L n s0 = Some (0, s0)" by (intro morecore_fail) simp
      with loop m0 nz show False by simp
    qed
    from morecore_ok [OF w room gf] obtain t ts where
      mc: "morecore L n s0 = Some (freep t, t)" "heap_inv L t ts" "\<exists>x\<in>set ts. n \<le> s_size t x"
      by blast
    have "freep t \<noteq> 0" using mc(2) by (rule heap_inv_freep)
    with loop mc(1) m0 have mt: "malloc_loop L n (freep t) (s_ptr t (freep t)) t = Some (ptr, s')"
      by simp
    from search_takes [OF mc(2) n0 mc(3) mt] obtain us prev r pre bs where
      "served L n t ts us prev r pre bs ptr s'" by blast
    with mc(2) show ?thesis unfolding n_def by blast
  qed
qed

lemma reuse_exact:
  assumes w: "heap_inv L t ts" and sv: "served L n t ts us prev r pre bs p1 s1"
    and n0: "n \<noteq> 0" and e: "s_size t r = n"
  shows "\<exists>s2 s3. free L p1 s1 = Some s2 \<and> freep s2 \<noteq> 0 \<and>
           malloc_loop L n (freep s2) (s_ptr s2 (freep s2)) s2 = Some (p1, s3) \<and> brk s3 = brk s1"
    and "heap_inv L s1 (tl (pre @ prev # bs))"
    and "\<forall>x\<in>set (tl (pre @ prev # bs)). blk_end L s1 x \<noteq> p1 - sizeof_Header L"
proof -
  have ns: "base L # ts = pre @ prev # r # bs" and sp: "s_ptr t prev = r"
    and fr: "freep s1 = prev" and p1: "p1 = r + sizeof_Header L"
    and ptr1: "s_ptr s1 = (s_ptr t)(prev := s_ptr t r)" and sz1: "s_size s1 = s_size t"
    and nx: "s_ptr s1 prev = hd (bs @ [base L])" and rn: "r \<notin> set (pre @ prev # bs)"
    and w1: "heap_inv L s1 (tl (pre @ prev # bs))"
    using sv e unfolding served_def by blast+
  show "heap_inv L s1 (tl (pre @ prev # bs))" by (rule w1)
  have wl: "wfl L t (pre @ prev # r # bs)" using w by (simp add: heap_inv_wfl ns)
  have H: "0 < sizeof_Header L" using w by (simp add: heap_inv_def layout_ok_def)
  have sep: "sep L t 0 (pre @ prev # r # bs)" using wl by (simp add: wfl_def)
  have pr: "prev < r" using sep by (rule sep_sorted) simp
  have epr: "blk_end L t prev < r" using sep by (rule sep_pair) simp
  have er: "r < blk_end L t r" using H e n0 by (intro blk_end_gt) simp_all
  have sep': "sep L t 0 ((pre @ [prev]) @ r # bs)" using sep by simp
  have ebs: "blk_end L t r < b" if "b \<in> set bs" for b using sep' that by (rule sep_pair)
  have bp: "base L \<le> prev" using wl by (rule wfl_base_le)
  have be1: "blk_end L s1 x = blk_end L t x" for x by (simp add: blk_end_def sz1)
  have nxt: "(bs = [] \<and> s_ptr s1 prev = base L) \<or> (bs \<noteq> [] \<and> s_ptr s1 prev \<in> set bs)"
    using nx by (cases bs) simp_all
  then have far: "s_ptr s1 prev \<le> prev \<or> blk_end L t r < s_ptr s1 prev"
    using bp ebs by auto
  have stop: "scan_stop s1 r prev" using far pr er by (auto simp: scan_stop_def)
  have f: "free L p1 s1 = Some (free_link L r prev s1)"
    using free_scan_stop [OF stop] by (simp add: free_def p1 fr)
  have c1: "prev \<noteq> r" using pr by simp
  have c2: "blk_end L s1 r \<noteq> s_ptr s1 prev" using far pr er by (auto simp: be1)
  have c3: "blk_end L s1 prev \<noteq> r" using epr by (simp add: be1)
  define s2 where "s2 = free_link L r prev s1"
  have s2: "s2 = s1\<lparr>s_ptr := (s_ptr s1)(r := s_ptr s1 prev, prev := r), freep := prev\<rparr>"
    unfolding s2_def using c1 c2 c3 by (simp add: free_link_def Let_def blk_end_def)
  have f2: "freep s2 = prev" "s_ptr s2 prev = r" "s_size s2 r = n" "brk s2 = brk s1"
    by (simp_all add: s2 sz1 e)
  have "prev \<in> set (base L # ts)" by (simp add: ns)
  with w have p0: "0 < prev" by (rule heap_inv_nodes_pos)
  have "chain (s_ptr s2) r [] r" by simp
  moreover have "\<forall>u\<in>set []. \<not> n \<le> s_size s2 u \<and> u \<noteq> freep s2" by simp
  moreover have "n \<le> s_size s2 r" by (simp add: f2)
  ultimately have "malloc_loop L n prev r s2 = Some (take_block L n (last (prev # [])) r s2)"
    by (rule walk_found)
  then have ml: "malloc_loop L n (freep s2) (s_ptr s2 (freep s2)) s2 =
      Some (r + sizeof_Header L, snd (take_block L n prev r s2))"
    by (simp add: f2 take_block_def)
  have "brk (snd (take_block L n prev r s2)) = brk s1" by (simp add: take_block_frame f2)
  with f ml p0 show "\<exists>s2 s3. free L p1 s1 = Some s2 \<and> freep s2 \<noteq> 0 \<and>
           malloc_loop L n (freep s2) (s_ptr s2 (freep s2)) s2 = Some (p1, s3) \<and> brk s3 = brk s1"
    unfolding s2_def [symmetric] p1 by (simp add: f2)
  show "\<forall>x\<in>set (tl (pre @ prev # bs)). blk_end L s1 x \<noteq> p1 - sizeof_Header L"
  proof
    fix x assume "x \<in> set (tl (pre @ prev # bs))"
    then have "x \<in> set (pre @ prev # bs)" by (rule list.set_sel(2) [rotated]) simp
    then have x: "x \<in> set (pre @ prev # r # bs)" and xr: "x \<noteq> r" using rn by auto
    have "r \<in> set (pre @ prev # r # bs)" by simp
    from sep_blocks [OF sep x this xr] have "blk_end L t x < r \<or> blk_end L t r < x" .
    moreover have "x \<le> blk_end L t x" by (rule blk_end_ge)
    ultimately have "blk_end L t x \<noteq> r" using er by auto
    then show "blk_end L s1 x \<noteq> p1 - sizeof_Header L" by (simp add: be1 p1)
  qed
qed

lemma reuse_split:
  assumes w: "heap_inv L t ts" and sv: "served L n t ts us prev r pre bs p1 s1"
    and n0: "n \<noteq> 0" and ne: "s_size t r \<noteq> n"
  shows "\<exists>s2 p2 s3. free L p1 s1 = Some s2 \<and> freep s2 \<noteq> 0 \<and>
           malloc_loop L n (freep s2) (s_ptr s2 (freep s2)) s2 = Some (p2, s3) \<and> p2 \<noteq> 0 \<and>
           brk s3 = brk s1 \<and> (p2 = p1 \<longleftrightarrow> (\<forall>y\<in>set ts. y \<noteq> r \<longrightarrow> \<not> n \<le> s_size t y))"
    and "heap_inv L s1 ts" and "r \<in> set ts" and "blk_end L s1 r = p1 - sizeof_Header L"
    and "\<forall>y\<in>set ts. y \<noteq> r \<longrightarrow> blk_end L s1 y \<noteq> p1 - sizeof_Header L \<and> s_size s1 y = s_size t y"
proof -
  define rest where "rest = s_size t r - n"
  define r' where "r' = r + unat rest * sizeof_Header L"
  have ns: "base L # ts = pre @ prev # r # bs" and sp: "s_ptr t prev = r"
    and fit: "n \<le> s_size t r"
    and fr: "freep s1 = prev" and b1: "brk s1 = brk t" "lim s1 = lim t"
    using sv unfolding served_def by blast+
  have "let rest = s_size t r - n; r' = r + unat rest * sizeof_Header L
         in p1 = r' + sizeof_Header L \<and> r < r' \<and>
            r' + unat n * sizeof_Header L = blk_end L t r \<and>
            s_size s1 = (s_size t)(r := rest, r' := n) \<and> s_size s1 r = rest \<and>
            s_size s1 r' = n \<and> s_ptr s1 = s_ptr t \<and> heap_inv L s1 ts"
    using sv ne unfolding served_def by blast
  then have p1: "p1 = r' + sizeof_Header L" and rr: "r < r'"
    and en: "r' + unat n * sizeof_Header L = blk_end L t r"
    and sz1: "s_size s1 = (s_size t)(r := rest, r' := n)" and szr: "s_size s1 r = rest"
    and szr': "s_size s1 r' = n" and ptr1: "s_ptr s1 = s_ptr t" and w1: "heap_inv L s1 ts"
    unfolding Let_def rest_def [symmetric] r'_def [symmetric] by blast+
  show "heap_inv L s1 ts" by (rule w1)
  have wl: "wfl L t (pre @ prev # r # bs)" using w by (simp add: heap_inv_wfl ns)
  have wl': "wfl L t ((pre @ [prev]) @ r # bs)" using wl by simp
  have H: "0 < sizeof_Header L" using w by (simp add: heap_inv_def layout_ok_def)
  have sep: "sep L t 0 (pre @ prev # r # bs)" using wl by (simp add: wfl_def)
  have rb: "r \<noteq> base L" using wl n0 fit by (rule wfl_fit_not_base)
  then show rts: "r \<in> set ts" using ns by (cases pre) auto
  have pr: "prev < r" using sep by (rule sep_sorted) simp
  have nH: "0 < unat n * sizeof_Header L" using n0 H by (simp add: unat_gt_0)
  have r'e: "r' < blk_end L t r" using en nH by linarith
  have sep': "sep L t 0 ((pre @ [prev]) @ r # bs)" using sep by simp
  have ebs: "blk_end L t r < b" if "b \<in> set bs" for b using sep' that by (rule sep_pair)
  have br: "base L \<le> r" using wl' by (rule wfl_base_le)
  have nx: "s_ptr t r = hd (bs @ [base L])" using wl' by (rule wfl_next)
  then have nxt: "(bs = [] \<and> s_ptr t r = base L) \<or> (bs \<noteq> [] \<and> s_ptr t r \<in> set bs)"
    by (cases bs) simp_all
  then have far: "s_ptr t r \<le> r \<or> blk_end L t r < s_ptr t r" using br ebs by auto
  have rin: "r \<in> set (pre @ prev # r # bs)" by simp
  have other: "blk_end L t y < r \<or> blk_end L t r < y"
    if "y \<in> set (pre @ prev # r # bs)" "y \<noteq> r" for y
    using sep_blocks [OF sep that(1) rin that(2)] .
  have r'n: "r' \<notin> set (pre @ prev # r # bs)"
  proof
    assume a: "r' \<in> set (pre @ prev # r # bs)"
    have "r' \<noteq> r" using rr by simp
    from other [OF a this] have "blk_end L t r' < r \<or> blk_end L t r < r'" .
    moreover have "r' \<le> blk_end L t r'" by (rule blk_end_ge)
    ultimately show False using rr r'e by linarith
  qed
  have be1r: "blk_end L s1 r = r'" by (simp add: blk_end_def szr r'_def)
  then show "blk_end L s1 r = p1 - sizeof_Header L" by (simp add: p1)
  have be1r': "blk_end L s1 r' = blk_end L t r" using en by (simp add: blk_end_def szr')
  have sz1y: "s_size s1 y = s_size t y" if "y \<in> set (pre @ prev # r # bs)" "y \<noteq> r" for y
    using that r'n by (auto simp: sz1)
  show "\<forall>y\<in>set ts. y \<noteq> r \<longrightarrow> blk_end L s1 y \<noteq> p1 - sizeof_Header L \<and> s_size s1 y = s_size t y"
  proof (intro ballI impI)
    fix y assume y: "y \<in> set ts" and yr: "y \<noteq> r"
    have yl: "y \<in> set (pre @ prev # r # bs)" using y ns [symmetric] by simp
    have e: "s_size s1 y = s_size t y" using yl yr by (rule sz1y)
    then have "blk_end L s1 y = blk_end L t y" by (rule blk_end_cong)
    moreover have "y \<le> blk_end L t y" by (rule blk_end_ge)
    ultimately have "blk_end L s1 y \<noteq> r'" using other [OF yl yr] rr r'e by linarith
    with e show "blk_end L s1 y \<noteq> p1 - sizeof_Header L \<and> s_size s1 y = s_size t y"
      by (simp add: p1)
  qed
  have ns1: "\<not> scan_stop s1 r' prev" using pr rr by (auto simp: scan_stop_def ptr1 sp)
  have st: "scan_stop s1 r' r" using far rr r'e by (auto simp: scan_stop_def ptr1)
  have "free_scan s1 r' prev = free_scan s1 r' (s_ptr s1 prev)" using ns1 by (rule free_scan_step)
  also have "\<dots> = Some r" using free_scan_stop [OF st] by (simp add: ptr1 sp)
  finally have f: "free L p1 s1 = Some (free_link L r' r s1)" by (simp add: free_def p1 fr)
  define s2 where "s2 = free_link L r' r s1"
  have c2: "blk_end L s1 r' \<noteq> s_ptr s1 r" using far rr r'e by (auto simp: be1r' ptr1)
  have s2: "s2 = s1\<lparr>s_ptr := (s_ptr s1)(r' := s_ptr s1 r, r := s_ptr s1 r),
       s_size := (s_size s1)(r := s_size s1 r + s_size s1 r'), freep := r\<rparr>"
    unfolding s2_def using rr c2 be1r by (intro free_link_C_eq) simp_all
  have f2: "freep s2 = r" "brk s2 = brk s1" "lim s2 = lim s1" by (simp_all add: s2)
  have z2r: "s_size s2 r = s_size t r" by (simp add: s2 szr szr' rest_def)
  have p2: "\<forall>x\<in>set (base L # ts). s_ptr s2 x = s_ptr t x"
    unfolding ns using r'n by (auto simp: s2 ptr1)
  have z2: "\<forall>x\<in>set (base L # ts). s_size s2 x = s_size t x"
  proof
    fix x assume "x \<in> set (base L # ts)"
    then have x: "x \<in> set (pre @ prev # r # bs)" by (simp add: ns)
    show "s_size s2 x = s_size t x"
    proof (cases "x = r")
      case True
      then show ?thesis by (simp add: z2r)
    next
      case False
      then have "s_size s2 x = s_size s1 x" by (simp add: s2)
      with sz1y [OF x False] show ?thesis by simp
    qed
  qed
  have w2: "heap_inv L s2 ts"
    using w p2 z2 by (rule heap_inv_cong) (simp_all add: f2 b1 rts)
  have "n \<le> s_size s2 r" using fit by (simp only: z2r)
  then have ex2: "\<exists>x\<in>set ts. n \<le> s_size s2 x" using rts by (rule_tac bexI)
  from malloc_loop_found [OF w2 n0 ex2] obtain p2 s3 xs3 where
    m2: "malloc_loop L n (freep s2) (s_ptr s2 (freep s2)) s2 = Some (p2, s3)"
    and post: "alloc_post L n s2 ts p2 s3 xs3" and b3: "brk s3 = brk s2" by blast
  have p20: "p2 \<noteq> 0" using post H by (simp add: alloc_post_def)
  from search_takes [OF w2 n0 ex2 m2] obtain us2 prev2 r2 pre2 bs2 where
    sv2: "served L n s2 ts us2 prev2 r2 pre2 bs2 p2 s3" by blast
  have ns2: "base L # ts = pre2 @ prev2 # r2 # bs2" and fit2: "n \<le> s_size s2 r2"
    and ch2: "chain (s_ptr s2) (s_ptr s2 (freep s2)) us2 r2" and d2: "distinct (us2 @ [r2])"
    and no2: "\<forall>u\<in>set us2. \<not> n \<le> s_size s2 u"
    using sv2 unfolding served_def by blast+
  have r2l: "r2 \<in> set (base L # ts)" by (simp add: ns2)
  have wl2: "wfl L s2 (pre2 @ prev2 # r2 # bs2)" using w2 by (simp add: heap_inv_wfl ns2)
  have r2b: "r2 \<noteq> base L" using wl2 n0 fit2 by (rule wfl_fit_not_base)
  have r2ts: "r2 \<in> set ts" using r2l r2b by simp
  have z2r2: "s_size s2 r2 = s_size t r2" using z2 r2l by blast
  define h2 where "h2 = p2 - sizeof_Header L"
  have be2: "blk_end L s2 x = blk_end L t x" if "x \<in> set (base L # ts)" for x
    using z2 that by (intro blk_end_cong) blast
  have p2h: "p2 = h2 + sizeof_Header L \<and> r2 \<le> h2 \<and> h2 < blk_end L s2 r2 \<and>
      (r2 = r \<longrightarrow> p2 = p1)"
  proof (cases "s_size s2 r2 = n")
    case True
    then have "p2 = r2 + sizeof_Header L" using sv2 unfolding served_def by blast
    moreover have "r2 < blk_end L s2 r2" using H True n0 by (intro blk_end_gt) simp_all
    moreover have "r2 \<noteq> r" using True z2r ne by auto
    ultimately show ?thesis by (simp add: h2_def)
  next
    case False
    then have "let rest = s_size s2 r2 - n; r' = r2 + unat rest * sizeof_Header L
         in p2 = r' + sizeof_Header L \<and> r2 < r' \<and>
            r' + unat n * sizeof_Header L = blk_end L s2 r2 \<and>
            s_size s3 = (s_size s2)(r2 := rest, r' := n) \<and> s_size s3 r2 = rest \<and>
            s_size s3 r' = n \<and> s_ptr s3 = s_ptr s2 \<and> heap_inv L s3 ts"
      using sv2 unfolding served_def by blast
    then have a: "p2 = r2 + unat (s_size s2 r2 - n) * sizeof_Header L + sizeof_Header L"
      and b: "r2 < r2 + unat (s_size s2 r2 - n) * sizeof_Header L"
      and c: "r2 + unat (s_size s2 r2 - n) * sizeof_Header L + unat n * sizeof_Header L =
          blk_end L s2 r2"
      unfolding Let_def by blast+
    have e: "r2 = r \<longrightarrow> p2 = p1" using a by (simp add: z2r p1 r'_def rest_def)
    have h: "h2 = r2 + unat (s_size s2 r2 - n) * sizeof_Header L" using a by (simp add: h2_def)
    have "r2 \<le> h2 \<and> h2 < blk_end L s2 r2" using b c nH unfolding h by linarith
    moreover have "p2 = h2 + sizeof_Header L" using a h by simp
    ultimately show ?thesis using e by blast
  qed
  have diff: "p2 \<noteq> p1" if "r2 \<noteq> r"
  proof -
    have r2l': "r2 \<in> set (pre @ prev # r # bs)" using r2l by (simp add: ns)
    from other [OF r2l' that] have "blk_end L t r2 < r \<or> blk_end L t r < r2" .
    moreover have "blk_end L s2 r2 = blk_end L t r2" using r2l by (rule be2)
    ultimately have "h2 \<noteq> r'" using p2h rr r'e by linarith
    then show ?thesis using p2h by (simp add: p1)
  qed
  have only: "r2 = r \<longleftrightarrow> (\<forall>y\<in>set ts. y \<noteq> r \<longrightarrow> \<not> n \<le> s_size t y)"
  proof
    assume e: "r2 = r"
    have c2: "cyclic s2 (base L # ts)" using w2 by (simp add: heap_inv_def)
    have rl: "r \<in> set (base L # ts)" using rts by simp
    have ch: "chain (s_ptr s2) (s_ptr s2 r) us2 r" using ch2 by (simp add: f2 e)
    have nr: "r \<notin> set us2" using d2 e by simp
    from cycle_covers [OF c2 rl ch nr] have cov: "set (base L # ts) \<subseteq> insert r (set us2)" .
    show "\<forall>y\<in>set ts. y \<noteq> r \<longrightarrow> \<not> n \<le> s_size t y"
    proof (intro ballI impI)
      fix y assume y: "y \<in> set ts" and yr: "y \<noteq> r"
      then have "y \<in> set us2" using cov by auto
      then have "\<not> n \<le> s_size s2 y" using no2 by blast
      moreover have "s_size s2 y = s_size t y" using z2 y by simp
      ultimately show "\<not> n \<le> s_size t y" by simp
    qed
  next
    assume a: "\<forall>y\<in>set ts. y \<noteq> r \<longrightarrow> \<not> n \<le> s_size t y"
    show "r2 = r"
    proof (rule ccontr)
      assume "r2 \<noteq> r"
      with a r2ts have "\<not> n \<le> s_size t r2" by blast
      with fit2 z2r2 show False by simp
    qed
  qed
  have iff: "p2 = p1 \<longleftrightarrow> (\<forall>y\<in>set ts. y \<noteq> r \<longrightarrow> \<not> n \<le> s_size t y)"
    using only diff p2h by blast
  have "0 < r" using w rts by (intro heap_inv_nodes_pos [of L t ts r]) simp_all
  then have fp: "freep s2 \<noteq> 0" by (simp add: f2)
  have b31: "brk s3 = brk s1" using b3 f2 by simp
  show "\<exists>s2 p2 s3. free L p1 s1 = Some s2 \<and> freep s2 \<noteq> 0 \<and>
           malloc_loop L n (freep s2) (s_ptr s2 (freep s2)) s2 = Some (p2, s3) \<and> p2 \<noteq> 0 \<and>
           brk s3 = brk s1 \<and> (p2 = p1 \<longleftrightarrow> (\<forall>y\<in>set ts. y \<noteq> r \<longrightarrow> \<not> n \<le> s_size t y))"
    using f [folded s2_def] fp m2 p20 b31 iff by blast
qed

text \<open>
  C5, as amended. Let malloc, on a heap that is well formed after the initialisation of
  lines 94 to 97 (with a growth, if needed, whose byte count does not wrap), return a
  pointer \<open>p1\<close> other than 0 and the store \<open>s1\<close>, whose free list is \<open>xs1\<close>. Then free of
  \<open>p1\<close> returns, and malloc of the same byte count then returns a pointer \<open>p2\<close> other
  than 0 and leaves the end of the managed region where it was. The search of malloc
  starts after the cursor, which free has left on the block that precedes the freed
  one or has absorbed it; so \<open>p2\<close> is \<open>p1\<close> exactly when no free block of \<open>s1\<close> ends at the
  header of the block of \<open>p1\<close> (that block had been unlinked whole), or when every free
  block of \<open>s1\<close> other than the one that ends there (from which the block of \<open>p1\<close> had been
  carved) is too small for the request.
\<close>

theorem reuse_after_free:
  assumes inv: "heap_inv L (init_list L s) xs"
    and g: "(\<forall>x\<in>set xs. \<not> nunits_of L nbytes \<le> s_size (init_list L s) x) \<longrightarrow>
              growth_fits L (nunits_of L nbytes)"
    and m: "malloc L nbytes s = Some (p1, s1)" and nz: "p1 \<noteq> 0"
  shows "\<exists>xs1 s2 p2 s3.
     heap_inv L s1 xs1 \<and> free L p1 s1 = Some s2 \<and> malloc L nbytes s2 = Some (p2, s3) \<and>
     p2 \<noteq> 0 \<and> brk s3 = brk s1 \<and>
     (p2 = p1 \<longleftrightarrow>
        (\<forall>x\<in>set xs1. blk_end L s1 x \<noteq> p1 - sizeof_Header L) \<or>
        (\<forall>x\<in>set xs1. blk_end L s1 x \<noteq> p1 - sizeof_Header L \<longrightarrow>
                       \<not> nunits_of L nbytes \<le> s_size s1 x))"
proof -
  define n where "n = nunits_of L nbytes"
  have n0: "n \<noteq> 0" unfolding n_def using heap_inv_layout [OF inv] by (rule nunits_pos)
  from malloc_served [OF inv g m nz] obtain t ts us prev r pre bs where
    w: "heap_inv L t ts" and sv: "served L n t ts us prev r pre bs p1 s1"
    unfolding n_def by blast
  have H: "0 < sizeof_Header L" using w by (simp add: heap_inv_def layout_ok_def)
  have ml: "malloc L nbytes s2 = malloc_loop L n (freep s2) (s_ptr s2 (freep s2)) s2"
    if "freep s2 \<noteq> 0" for s2
    using that by (simp add: malloc_unfold init_list_id n_def)
  show ?thesis
  proof (cases "s_size t r = n")
    case True
    note e = reuse_exact [OF w sv n0 True]
    from e(1) obtain s2 s3 where
      f: "free L p1 s1 = Some s2" "freep s2 \<noteq> 0"
         "malloc_loop L n (freep s2) (s_ptr s2 (freep s2)) s2 = Some (p1, s3)" "brk s3 = brk s1"
      by blast
    have "malloc L nbytes s2 = Some (p1, s3)" using f(2,3) by (simp add: ml)
    with e(2) e(3) f(1) f(4) nz have "heap_inv L s1 (tl (pre @ prev # bs)) \<and> free L p1 s1 = Some s2 \<and> malloc L nbytes s2 = Some (p1, s3) \<and>
     p1 \<noteq> 0 \<and> brk s3 = brk s1 \<and>
     (p1 = p1 \<longleftrightarrow>
        (\<forall>x\<in>set (tl (pre @ prev # bs)). blk_end L s1 x \<noteq> p1 - sizeof_Header L) \<or>
        (\<forall>x\<in>set (tl (pre @ prev # bs)). blk_end L s1 x \<noteq> p1 - sizeof_Header L \<longrightarrow>
                       \<not> nunits_of L nbytes \<le> s_size s1 x))"
      by simp
    then show ?thesis by blast
  next
    case False
    note e = reuse_split [OF w sv n0 False]
    from e(1) obtain s2 p2 s3 where
      f: "free L p1 s1 = Some s2" "freep s2 \<noteq> 0"
         "malloc_loop L n (freep s2) (s_ptr s2 (freep s2)) s2 = Some (p2, s3)" "p2 \<noteq> 0"
         "brk s3 = brk s1"
      and iff: "p2 = p1 \<longleftrightarrow> (\<forall>y\<in>set ts. y \<noteq> r \<longrightarrow> \<not> n \<le> s_size t y)"
      by blast
    have m2: "malloc L nbytes s2 = Some (p2, s3)" using f(2,3) by (simp add: ml)
    have c1: "\<not> (\<forall>x\<in>set ts. blk_end L s1 x \<noteq> p1 - sizeof_Header L)" using e(3) e(4) by blast
    have c2: "(\<forall>x\<in>set ts. blk_end L s1 x \<noteq> p1 - sizeof_Header L \<longrightarrow> \<not> n \<le> s_size s1 x) \<longleftrightarrow>
        (\<forall>y\<in>set ts. y \<noteq> r \<longrightarrow> \<not> n \<le> s_size t y)"
    proof
      assume a: "\<forall>x\<in>set ts. blk_end L s1 x \<noteq> p1 - sizeof_Header L \<longrightarrow> \<not> n \<le> s_size s1 x"
      show "\<forall>y\<in>set ts. y \<noteq> r \<longrightarrow> \<not> n \<le> s_size t y"
      proof (intro ballI impI)
        fix y assume y: "y \<in> set ts" "y \<noteq> r"
        with e(5) have "blk_end L s1 y \<noteq> p1 - sizeof_Header L" "s_size s1 y = s_size t y" by blast+
        with a y(1) show "\<not> n \<le> s_size t y" by auto
      qed
    next
      assume a: "\<forall>y\<in>set ts. y \<noteq> r \<longrightarrow> \<not> n \<le> s_size t y"
      show "\<forall>x\<in>set ts. blk_end L s1 x \<noteq> p1 - sizeof_Header L \<longrightarrow> \<not> n \<le> s_size s1 x"
      proof (intro ballI impI)
        fix x assume x: "x \<in> set ts" "blk_end L s1 x \<noteq> p1 - sizeof_Header L"
        then have xr: "x \<noteq> r" using e(4) by auto
        with e(5) x(1) have "s_size s1 x = s_size t x" by blast
        with a x(1) xr show "\<not> n \<le> s_size s1 x" by auto
      qed
    qed
    have c12: "(\<forall>x\<in>set ts. blk_end L s1 x \<noteq> p1 - sizeof_Header L) \<or>
        (\<forall>x\<in>set ts. blk_end L s1 x \<noteq> p1 - sizeof_Header L \<longrightarrow> \<not> n \<le> s_size s1 x) \<longleftrightarrow>
        (\<forall>y\<in>set ts. y \<noteq> r \<longrightarrow> \<not> n \<le> s_size t y)"
      using c1 c2 by blast
    have "heap_inv L s1 ts \<and> free L p1 s1 = Some s2 \<and> malloc L nbytes s2 = Some (p2, s3) \<and>
     p2 \<noteq> 0 \<and> brk s3 = brk s1 \<and>
     (p2 = p1 \<longleftrightarrow>
        (\<forall>x\<in>set ts. blk_end L s1 x \<noteq> p1 - sizeof_Header L) \<or>
        (\<forall>x\<in>set ts. blk_end L s1 x \<noteq> p1 - sizeof_Header L \<longrightarrow>
                       \<not> nunits_of L nbytes \<le> s_size s1 x))"
      using e(2) f(1) m2 f(4) f(5) iff c12 unfolding n_def [symmetric] by simp
    then show ?thesis by blast
  qed
qed

lemma ex_nunits64: "nunits_of ex_layout 64 = 5"
  by (simp add: nunits_of_def units_dec_def units_sum_def size_t_dec_def size_t_of_def
      ex_layout_def)

lemma ex_heap3_exact_inv:
  "heap_inv ex_layout (ex_heap3\<lparr>s_ptr := (s_ptr ex_heap3)(64 := 16), freep := 64\<rparr>) [64]"
  by (simp add: heap_inv_def ex_layout_ok arena_ok_def cyclic_def blk_ok_def blk_end_def)
     (simp add: ex_layout_def ex_heap3_def)

lemma ex_heap3_split_inv:
  "heap_inv ex_layout (ex_heap3\<lparr>s_size := (s_size ex_heap3)(128 := 1, 144 := 3), freep := 64\<rparr>)
     [64, 128]"
  by (simp add: heap_inv_def ex_layout_ok arena_ok_def cyclic_def blk_ok_def blk_end_def)
     (simp add: ex_layout_def ex_heap3_def)

lemma ex_heap2_inv: "heap_inv ex_layout ex_heap2 [4096, 8192]"
  by (simp add: heap_inv_def ex_layout_ok arena_ok_def cyclic_def blk_ok_def blk_end_def)
     (simp add: ex_layout_def ex_heap2_def)

lemma ex_heap2_first: "malloc ex_layout 64 ex_heap2 = Some (4352, ex_heap2_taken)"
  apply (simp add: malloc_unfold ex_nunits64 init_list_def ex_heap2_def ex_heap2_taken_def)
  apply (subst malloc_loop.simps)
  apply (simp add: take_block_def ex_layout_def Let_def)
  done

lemma ex_heap2_free: "free ex_layout 4352 ex_heap2_taken = Some ex_heap2_freed"
  apply (simp add: free_def ex_layout_def)
  apply (subst free_scan.simps)
  apply (simp add: ex_heap2_def ex_heap2_taken_def)
  apply (subst free_scan.simps)
  apply (simp add: ex_heap2_def ex_heap2_taken_def ex_heap2_freed_def free_link_def)
  done

lemma ex_heap2_second:
  "malloc ex_layout 64 ex_heap2_freed =
     Some (8448, ex_heap2_freed\<lparr>s_size := (s_size ex_heap2_freed)(8192 := 15, 8432 := 5),
                                 freep := 4096\<rparr>)"
  apply (simp add: malloc_unfold ex_nunits64 init_list_def ex_heap2_def ex_heap2_taken_def
      ex_heap2_freed_def)
  apply (subst malloc_loop.simps)
  apply (simp add: take_block_def ex_layout_def Let_def)
  done

theorem reuse_after_free_witness:
  "(\<exists>s2 s3. free ex_layout 144 (ex_heap3\<lparr>s_ptr := (s_ptr ex_heap3)(64 := 16), freep := 64\<rparr>) = Some s2 \<and>
      malloc ex_layout 48 s2 = Some (144, s3) \<and> brk s3 = 8192) \<and>
   (\<exists>s2 s3. free ex_layout 160
        (ex_heap3\<lparr>s_size := (s_size ex_heap3)(128 := 1, 144 := 3), freep := 64\<rparr>) = Some s2 \<and>
      malloc ex_layout 32 s2 = Some (160, s3) \<and> brk s3 = 8192)"
proof -
  define A where "A = ex_heap3\<lparr>s_ptr := (s_ptr ex_heap3)(64 := 16), freep := 64\<rparr>"
  define B where "B = ex_heap3\<lparr>s_size := (s_size ex_heap3)(128 := 1, 144 := 3), freep := 64\<rparr>"
  have i: "heap_inv ex_layout (init_list ex_layout ex_heap3) [64, 128]"
    by (simp add: ex_heap3_init ex_heap3_inv)
  have g: "(\<forall>x\<in>set [64, 128]. \<not> nunits_of ex_layout 48 \<le> s_size (init_list ex_layout ex_heap3) x)
      \<longrightarrow> growth_fits ex_layout (nunits_of ex_layout 48)"
    "(\<forall>x\<in>set [64, 128]. \<not> nunits_of ex_layout 32 \<le> s_size (init_list ex_layout ex_heap3) x)
      \<longrightarrow> growth_fits ex_layout (nunits_of ex_layout 32)"
    unfolding ex_nunits ex_heap3_init by (simp_all add: ex_heap3_def)
  have bA: "brk A = 8192" "brk B = 8192" by (simp_all add: A_def B_def ex_heap3_def)
  have nz: "(144 :: nat) \<noteq> 0" "(160 :: nat) \<noteq> 0" by simp_all
  from reuse_after_free [OF i g(1) ex_heap3_exact nz(1)] obtain xs1 s2 p2 s3 where
    a: "heap_inv ex_layout A xs1" "free ex_layout 144 A = Some s2"
       "malloc ex_layout 48 s2 = Some (p2, s3)" "p2 \<noteq> 0" "brk s3 = brk A"
       "p2 = 144 \<longleftrightarrow>
        (\<forall>x\<in>set xs1. blk_end ex_layout A x \<noteq> 144 - sizeof_Header ex_layout) \<or>
        (\<forall>x\<in>set xs1. blk_end ex_layout A x \<noteq> 144 - sizeof_Header ex_layout \<longrightarrow>
                       \<not> nunits_of ex_layout 48 \<le> s_size A x)"
    unfolding A_def [symmetric] by blast
  have "xs1 = [64]" using a(1) ex_heap3_exact_inv [folded A_def] by (rule heap_inv_unique)
  then have "p2 = 144" unfolding a(6) by (simp add: blk_end_def ex_layout_def A_def ex_heap3_def)
  with a have one: "\<exists>s2 s3. free ex_layout 144 A = Some s2 \<and>
      malloc ex_layout 48 s2 = Some (144, s3) \<and> brk s3 = 8192" by (auto simp: bA)
  from reuse_after_free [OF i g(2) ex_heap3_split nz(2)] obtain ys1 t2 q2 t3 where
    b: "heap_inv ex_layout B ys1" "free ex_layout 160 B = Some t2"
       "malloc ex_layout 32 t2 = Some (q2, t3)" "q2 \<noteq> 0" "brk t3 = brk B"
       "q2 = 160 \<longleftrightarrow>
        (\<forall>x\<in>set ys1. blk_end ex_layout B x \<noteq> 160 - sizeof_Header ex_layout) \<or>
        (\<forall>x\<in>set ys1. blk_end ex_layout B x \<noteq> 160 - sizeof_Header ex_layout \<longrightarrow>
                       \<not> nunits_of ex_layout 32 \<le> s_size B x)"
    unfolding B_def [symmetric] by blast
  have "ys1 = [64, 128]" using b(1) ex_heap3_split_inv [folded B_def] by (rule heap_inv_unique)
  then have "q2 = 160" unfolding b(6) ex_nunits
    by (simp add: blk_end_def ex_layout_def B_def ex_heap3_def)
  with b have two: "\<exists>s2 s3. free ex_layout 160 B = Some s2 \<and>
      malloc ex_layout 32 s2 = Some (160, s3) \<and> brk s3 = 8192" by (auto simp: bA)
  from one two show ?thesis unfolding A_def B_def by blast
qed

text \<open>
  The claim as stated fails on the well-formed heap \<open>ex_heap2\<close>: malloc(64) carves its
  block from the tail of the block at 4096 and returns 4352; free(4352) merges it back
  and leaves the cursor on 4096; the second malloc(64) starts at the successor of the
  cursor, the block at 8192, which is large enough, and returns 8448.
\<close>

theorem reuse_next_fit:
  "heap_inv ex_layout ex_heap2 [4096, 8192] \<and>
   malloc ex_layout 64 ex_heap2 = Some (4352, ex_heap2_taken) \<and>
   free ex_layout 4352 ex_heap2_taken = Some ex_heap2_freed \<and>
   map_option fst (malloc ex_layout 64 ex_heap2_freed) = Some 8448"
  by (simp add: ex_heap2_inv ex_heap2_first ex_heap2_free ex_heap2_second)

end
